theory Spec2Isabelle
  imports Complex_Main "HOL-Library.Word"
begin

unbundle bit_operations_syntax

section \<open>leah\_sign: the real-time control core of the LED sign (ATtiny85)\<close>

text \<open>
  The model follows the second revision of \<^verbatim>\<open>leah_sign.c\<close> (the one with the EEPROM
  settings and the twelve sequences). The target is an ATtiny85 compiled with avr-gcc,
  so \<^verbatim>\<open>int\<close> is 16 bits wide, \<^verbatim>\<open>uint16_t\<close> is \<^verbatim>\<open>unsigned int\<close>, and the
  registers are 8 bits wide.
\<close>

subsection \<open>Machine types\<close>

type_synonym u8 = "8 word"
type_synonym u16 = "16 word"
type_synonym u64 = "64 word"
type_synonym adc10 = "10 word"

subsection \<open>The environment\<close>

text \<open>
  The foreground thread blocks in two places only: the conversion wait of \<^verbatim>\<open>adc_read\<close>
  and the busy wait \<^verbatim>\<open>_delay_ms\<close>. Foreground time is cut into \<^emph>\<open>slots\<close>: one ADC
  conversion is one slot, a delay of \<open>n\<close> milliseconds is \<open>n\<close> slots. The environment
  says, for every slot, what the 10-bit converter would read on each input and how many
  timer-0 overflow interrupts are served while the slot passes; it also supplies the
  values of the C library's \<^verbatim>\<open>rand()\<close>.
\<close>

record env =
  adc_in :: "u8 \<Rightarrow> nat \<Rightarrow> adc10"
  ovf :: "nat \<Rightarrow> nat"
  rnd :: "nat \<Rightarrow> nat"

subsection \<open>The device state\<close>

text \<open>
  What the lights show is recorded as a trace, newest event first: \<open>Shown a b c d n\<close>
  says that the four compare registers (\<^verbatim>\<open>OCR0A\<close>, \<^verbatim>\<open>OCR0B\<close>, \<^verbatim>\<open>OCR1B\<close>,
  \<^verbatim>\<open>OCR1A\<close>) held \<open>a b c d\<close> during a busy wait of \<open>n\<close> milliseconds, and
  \<open>Checked r\<close> that a call of \<^verbatim>\<open>check_button_input\<close> returned \<open>r\<close>.
\<close>

datatype event = Shown u8 u8 u8 u8 nat | Checked int

datatype wdto = WDTO_30MS

record hw =
  OCR0A :: u8
  OCR0B :: u8
  OCR1B :: u8
  OCR1A :: u8
  PORTB :: u8
  timer_interrupt_ticks :: u16
  millis :: u64
  mic_buffer :: "nat \<Rightarrow> u16"
  mic_buffer_current :: int
  settings_start_seq :: u8
  settings_start_seq_ee :: u8
  wdt :: "wdto option"
  slot :: nat
  rand_calls :: nat
  trace :: "event list"

text \<open>A call either returns a value, or the watchdog restarts the device inside it.\<close>

datatype 'a res = Reset hw | Val 'a hw

subsection \<open>Emulated PWM on pin 2: the timer-1 interrupts\<close>

definition PB3 :: nat where
  "PB3 = 3"

definition TIMER1_OVF_vect :: "hw \<Rightarrow> hw" where
  "TIMER1_OVF_vect s =
     (if 4 < OCR1A s then s\<lparr>PORTB := PORTB s OR push_bit PB3 1\<rparr> else s)"

definition TIMER1_COMPA_vect :: "hw \<Rightarrow> hw" where
  "TIMER1_COMPA_vect s = s\<lparr>PORTB := PORTB s AND NOT (push_bit PB3 1)\<rparr>"

definition pin_high :: "hw \<Rightarrow> bool" where
  "pin_high s = bit (PORTB s) PB3"

text \<open>
  One period of timer 1, as the hardware runs it: the counter takes the values
  \<open>0 .. 255\<close>; the overflow interrupt is served when the counter is back at 0, the
  compare-match interrupt when the counter equals \<^verbatim>\<open>OCR1A\<close>. The second component
  counts the counter values during which the pin is high.
\<close>

definition timer1_count :: "nat \<Rightarrow> hw \<times> nat \<Rightarrow> hw \<times> nat" where
  "timer1_count c p =
     (let s = fst p;
          s1 = (if c = 0 then TIMER1_OVF_vect s else s);
          s2 = (if c = unat (OCR1A s1) then TIMER1_COMPA_vect s1 else s1)
      in (s2, if pin_high s2 then snd p + 1 else snd p))"

definition timer1_period :: "hw \<Rightarrow> hw \<times> nat" where
  "timer1_period s = fold timer1_count [0..<256] (s, 0)"

subsection \<open>Time base: the timer-0 overflow interrupt\<close>

definition TIMER0_OVF_vect :: "hw \<Rightarrow> hw" where
  "TIMER0_OVF_vect s =
     (let t = timer_interrupt_ticks s + 1
      in if 4 < t then s\<lparr>timer_interrupt_ticks := 0, millis := millis s + 1\<rparr>
         else s\<lparr>timer_interrupt_ticks := t\<rparr>)"

text \<open>One slot of foreground time passes: the interrupts of that slot are served.\<close>

definition slot_pass :: "env \<Rightarrow> hw \<Rightarrow> hw" where
  "slot_pass e s = ((TIMER0_OVF_vect ^^ ovf e (slot s)) s)\<lparr>slot := slot s + 1\<rparr>"

definition delay_ms :: "env \<Rightarrow> nat \<Rightarrow> hw \<Rightarrow> hw" where
  "delay_ms e n s =
     (slot_pass e ^^ n)
       (s\<lparr>trace := Shown (OCR0A s) (OCR0B s) (OCR1B s) (OCR1A s) n # trace s\<rparr>)"

subsection \<open>Analog sampler\<close>

text \<open>
  The multiplexer and the conversion handshake are hardware: the call returns what the
  converter reads on input \<open>ch\<close> in the current slot, and the slot passes.
\<close>

definition adc_read :: "env \<Rightarrow> u8 \<Rightarrow> hw \<Rightarrow> u16 \<times> hw" where
  "adc_read e ch s = (ucast (adc_in e ch (slot s)), slot_pass e s)"

subsection \<open>Settings and restart\<close>

definition save_settings :: "hw \<Rightarrow> hw" where
  "save_settings s = s\<lparr>settings_start_seq_ee := settings_start_seq s\<rparr>"

definition load_settings :: "hw \<Rightarrow> hw" where
  "load_settings s = s\<lparr>settings_start_seq := settings_start_seq_ee s\<rparr>"

text \<open>
  \<^verbatim>\<open>reset\<close> arms the watchdog and spins; it never returns. The state it yields is the
  one in which the watchdog expires.
\<close>

definition reset :: "hw \<Rightarrow> hw" where
  "reset s = s\<lparr>wdt := Some WDTO_30MS\<rparr>"

subsection \<open>Input monitor\<close>

definition set_all :: "u8 \<Rightarrow> hw \<Rightarrow> hw" where
  "set_all v s = s\<lparr>OCR0A := v, OCR0B := v, OCR1B := v, OCR1A := v\<rparr>"

fun blink :: "env \<Rightarrow> nat \<Rightarrow> hw \<Rightarrow> hw" where
  "blink e 0 s = s"
| "blink e (Suc n) s =
     blink e n (delay_ms e 50 (set_all 0 (delay_ms e 50 (set_all 255 s))))"

definition returns :: "int \<Rightarrow> hw \<Rightarrow> int res" where
  "returns r s = Val r (s\<lparr>trace := Checked r # trace s\<rparr>)"

definition check_button_input :: "env \<Rightarrow> hw \<Rightarrow> int res" where
  "check_button_input e s =
     (let (r1, s1) = adc_read e 0 s in
      if r1 < 1000 then
        let s2 = delay_ms e 300 s1;
            (r2, s3) = adc_read e 0 s2 in
        if r2 < 1000 then
          let s4 = delay_ms e 3000 s3;
              (r3, s5) = adc_read e 0 s4 in
          if r3 < 1000 then
            Reset (reset (save_settings (delay_ms e 2000 (blink e 10 s5))))
          else returns 1 s5
        else returns 1 s3
      else returns 0 s1)"

subsection \<open>Ring buffer of microphone samples\<close>

definition MIC_BUFFER_SIZE :: nat where
  "MIC_BUFFER_SIZE = 16"

definition init_mic_buffer :: "hw \<Rightarrow> hw" where
  "init_mic_buffer s =
     s\<lparr>mic_buffer := fold (\<lambda>i b. b(i := 512)) [0..<MIC_BUFFER_SIZE] (mic_buffer s),
       mic_buffer_current := 0\<rparr>"

text \<open>
  \<^verbatim>\<open>abs\<close> takes and returns a 16-bit \<^verbatim>\<open>int\<close>; its argument is the 16-bit
  difference read as two's complement.
\<close>

definition abs16 :: "u16 \<Rightarrow> u16" where
  "abs16 w = (if sint w < 0 then - w else w)"

definition get_mic_buffer_mad :: "hw \<Rightarrow> u16" where
  "get_mic_buffer_mad s =
     (let total = fold (\<lambda>i t. t + mic_buffer s i) [0..<MIC_BUFFER_SIZE] 0;
          mean = total div of_nat MIC_BUFFER_SIZE;
          mad = fold (\<lambda>i m. m + abs16 (mic_buffer s i - mean)) [0..<MIC_BUFFER_SIZE] 0
      in mad div of_nat MIC_BUFFER_SIZE)"

subsection \<open>Statements of a lighting sequence\<close>

text \<open>
  A statement of a sequence body either falls through to the next statement, with the
  locals \<open>'l\<close> of the sequence, or leaves the sequence: by \<^verbatim>\<open>return\<close>, or because
  the watchdog restarted the device. \<open>None\<close> is a statement that never finishes.
\<close>

datatype 'l flow = Restarted hw | Returned int hw | Continue 'l hw

type_synonym 'l stmt = "'l \<Rightarrow> hw \<Rightarrow> 'l flow option"

fun run :: "'l stmt list \<Rightarrow> 'l stmt" where
  "run [] l s = Some (Continue l s)"
| "run (c # cs) l s =
     (case c l s of Some (Continue l' s') \<Rightarrow> run cs l' s' | r \<Rightarrow> r)"

declare run.simps [simp del]

text \<open>\<^verbatim>\<open>for\<close> loops: the body once for every value the loop variable takes.\<close>

definition for_each :: "'a list \<Rightarrow> ('a \<Rightarrow> 'l stmt) \<Rightarrow> 'l stmt" where
  "for_each xs f = run (map f xs)"

definition times :: "nat \<Rightarrow> 'l stmt \<Rightarrow> 'l stmt" where
  "times n c = run (replicate n c)"

text \<open>\<^verbatim>\<open>if(check_button_input()) return 1;\<close>\<close>

definition poll :: "env \<Rightarrow> 'l stmt" where
  "poll e l s =
     (case check_button_input e s of
        Reset s' \<Rightarrow> Some (Restarted s')
      | Val r s' \<Rightarrow> if r \<noteq> 0 then Some (Returned 1 s') else Some (Continue l s'))"

text \<open>Register writes, and \<^verbatim>\<open>_delay_ms(n);\<close>\<close>

definition wr :: "(hw \<Rightarrow> hw) \<Rightarrow> 'l stmt" where
  "wr f l s = Some (Continue l (f s))"

definition pause :: "env \<Rightarrow> nat \<Rightarrow> 'l stmt" where
  "pause e n = wr (delay_ms e n)"

subsection \<open>Waiting while watching the button\<close>

partial_function (option)
  delay_millis_check_button_loop :: "env \<Rightarrow> u64 \<Rightarrow> int \<Rightarrow> hw \<Rightarrow> int res option"
where
  "delay_millis_check_button_loop e deadline button_pressed s =
     (if millis s < deadline then
        (case check_button_input e s of
           Reset s' \<Rightarrow> Some (Reset s')
         | Val r s' \<Rightarrow>
             delay_millis_check_button_loop e deadline
               (if r \<noteq> 0 then 1 else button_pressed) s')
      else Some (Val button_pressed s))"

declare delay_millis_check_button_loop.simps [code]

definition delay_millis_check_button :: "env \<Rightarrow> int \<Rightarrow> hw \<Rightarrow> int res option" where
  "delay_millis_check_button e millisdelay s =
     delay_millis_check_button_loop e (millis s + of_int millisdelay) 0 s"

text \<open>\<^verbatim>\<open>if(delay_millis_check_button(d)) return 1;\<close>\<close>

definition wait_poll :: "env \<Rightarrow> int \<Rightarrow> 'l stmt" where
  "wait_poll e d l s =
     (case delay_millis_check_button e d s of
        None \<Rightarrow> None
      | Some (Reset s') \<Rightarrow> Some (Restarted s')
      | Some (Val r s') \<Rightarrow> if r \<noteq> 0 then Some (Returned 1 s') else Some (Continue l s'))"

subsection \<open>The outer loop of every sequence\<close>

text \<open>
  \<^verbatim>\<open>while((timeout < 0) || (millis < (start_time + (uint64_t)timeout))){ body }
  return 0;\<close>
\<close>

partial_function (option)
  seq_while :: "'l stmt \<Rightarrow> int \<Rightarrow> u64 \<Rightarrow> 'l \<Rightarrow> hw \<Rightarrow> int res option"
where
  "seq_while body timeout start_time l s =
     (if timeout < 0 \<or> millis s < start_time + of_int timeout then
        (case body l s of
           None \<Rightarrow> None
         | Some (Restarted s') \<Rightarrow> Some (Reset s')
         | Some (Returned r s') \<Rightarrow> Some (Val r s')
         | Some (Continue l' s') \<Rightarrow> seq_while body timeout start_time l' s')
      else Some (Val 0 s))"

declare seq_while.simps [code]

subsection \<open>Sequences 1 and 2: fading the channels one after the other\<close>

text \<open>
  The locals \<^verbatim>\<open>led1 .. led4\<close> are \<open>l 1 .. l 4\<close>; channel \<open>k\<close> is driven through
  \<^verbatim>\<open>OCR0A\<close>, \<^verbatim>\<open>OCR0B\<close>, \<^verbatim>\<open>OCR1B\<close>, \<^verbatim>\<open>OCR1A\<close> for \<open>k = 1, 2, 3, 4\<close>.
\<close>

definition ocr_write :: "nat \<Rightarrow> u8 \<Rightarrow> hw \<Rightarrow> hw" where
  "ocr_write k v s =
     (if k = 1 then s\<lparr>OCR0A := v\<rparr> else if k = 2 then s\<lparr>OCR0B := v\<rparr>
      else if k = 3 then s\<lparr>OCR1B := v\<rparr> else s\<lparr>OCR1A := v\<rparr>)"

text \<open>\<^verbatim>\<open>while(led < 255){ poll; led++; OCR = led; _delay_ms(d); }\<close>\<close>

function fade_in :: "env \<Rightarrow> nat \<Rightarrow> nat \<Rightarrow> (nat \<Rightarrow> u8) stmt" where
  "fade_in e k d l s =
     (if l k < 255 then
        (case poll e l s of
           Some (Continue l1 s1) \<Rightarrow>
             fade_in e k d (l(k := l k + 1)) (delay_ms e d (ocr_write k (l k + 1) s1))
         | r \<Rightarrow> r)
      else Some (Continue l s))"
  by pat_completeness auto
termination
proof (relation "measure (\<lambda>(e, k, d, l, s). 255 - unat (l k))")
  show "wf (measure (\<lambda>(e, k, d, l, s). 255 - unat (l k)))" by simp
next
  fix e :: env and k d :: nat and l :: "nat \<Rightarrow> u8" and s :: hw
    and x2 :: "(nat \<Rightarrow> u8) flow" and x33 s1
  assume "l k < 255"
  then have "unat (l k) < 255" by (simp add: word_less_nat_alt)
  moreover from this have "unat (l k + 1) = unat (l k) + 1"
    by (simp add: unat_word_ariths)
  ultimately show "((e, k, d, l(k := l k + 1), delay_ms e d (ocr_write k (l k + 1) s1)),
                    (e, k, d, l, s)) \<in> measure (\<lambda>(e, k, d, l, s). 255 - unat (l k))"
    by simp
qed

text \<open>\<^verbatim>\<open>while(led > 0){ poll; led--; OCR = led; _delay_ms(d); }\<close>\<close>

function fade_out :: "env \<Rightarrow> nat \<Rightarrow> nat \<Rightarrow> (nat \<Rightarrow> u8) stmt" where
  "fade_out e k d l s =
     (if 0 < l k then
        (case poll e l s of
           Some (Continue l1 s1) \<Rightarrow>
             fade_out e k d (l(k := l k - 1)) (delay_ms e d (ocr_write k (l k - 1) s1))
         | r \<Rightarrow> r)
      else Some (Continue l s))"
  by pat_completeness auto
termination
proof (relation "measure (\<lambda>(e, k, d, l, s). unat (l k))")
  show "wf (measure (\<lambda>(e, k, d, l, s). unat (l k)))" by simp
next
  fix e :: env and k d :: nat and l :: "nat \<Rightarrow> u8" and s :: hw
    and x2 :: "(nat \<Rightarrow> u8) flow" and x33 s1
  assume "0 < l k"
  then have "0 < unat (l k)" by (simp add: word_less_nat_alt)
  moreover from this have "1 \<le> l k" by (simp add: word_le_nat_alt)
  then have "unat (l k - 1) = unat (l k) - unat (1 :: u8)" by (rule unat_sub)
  ultimately show "((e, k, d, l(k := l k - 1), delay_ms e d (ocr_write k (l k - 1) s1)),
                    (e, k, d, l, s)) \<in> measure (\<lambda>(e, k, d, l, s). unat (l k))"
    by simp
qed

declare fade_in.simps [simp del] fade_out.simps [simp del]

definition seq1_body :: "env \<Rightarrow> (nat \<Rightarrow> u8) stmt" where
  "seq1_body e =
     run [fade_in e 1 1, fade_in e 2 1, fade_in e 3 1, fade_in e 4 1,
          fade_out e 1 1, fade_out e 2 1, fade_out e 3 1, fade_out e 4 1]"

definition seq1 :: "env \<Rightarrow> int \<Rightarrow> hw \<Rightarrow> int res option" where
  "seq1 e timeout s =
     (let s0 = set_all 0 s;
          start_time = millis s0
      in seq_while (seq1_body e) timeout start_time (\<lambda>_. 0) s0)"

text \<open>The last loop of sequence 2 steps all four channels down together.\<close>

definition dec_leds :: "(nat \<Rightarrow> u8) stmt" where
  "dec_leds l s =
     (let l' = l(1 := l 1 - 1, 2 := l 2 - 1, 3 := l 3 - 1, 4 := l 4 - 1)
      in Some (Continue l' (s\<lparr>OCR0A := l' 1, OCR0B := l' 2, OCR1B := l' 3, OCR1A := l' 4\<rparr>)))"

definition seq2_body :: "env \<Rightarrow> (nat \<Rightarrow> u8) stmt" where
  "seq2_body e =
     run [fade_in e 1 2, fade_in e 2 2, fade_in e 3 2, fade_in e 4 2,
          times 255 (run [poll e, dec_leds, pause e 4])]"

definition seq2 :: "env \<Rightarrow> int \<Rightarrow> hw \<Rightarrow> int res option" where
  "seq2 e timeout s =
     (let s0 = set_all 0 s;
          start_time = millis s0
      in seq_while (seq2_body e) timeout start_time (\<lambda>_. 0) s0)"

subsection \<open>Sequence 3: flash each channel in turn, then fade all out\<close>

text \<open>Two short flashes of channel \<open>k\<close>, which is then left on.\<close>

definition flash :: "env \<Rightarrow> nat \<Rightarrow> unit stmt list" where
  "flash e k =
     [poll e,
      wr (ocr_write k 255), wait_poll e 50,
      wr (ocr_write k 0), wait_poll e 50,
      wr (ocr_write k 255), wait_poll e 50,
      wr (ocr_write k 0), wait_poll e 50,
      wr (ocr_write k 255)]"

definition seq3_body :: "env \<Rightarrow> unit stmt" where
  "seq3_body e =
     run (flash e 1 @ [wait_poll e 100] @
          flash e 2 @ [wait_poll e 100] @
          flash e 3 @ [wait_poll e 100] @
          flash e 4 @ [wait_poll e 500] @
          [for_each (rev [1..<256]) (\<lambda>i. run [poll e, wr (set_all (of_nat i)), pause e 1]),
           wr (set_all 0),
           wait_poll e 500])"

definition seq3 :: "env \<Rightarrow> int \<Rightarrow> hw \<Rightarrow> int res option" where
  "seq3 e timeout s =
     (let s0 = set_all 0 s;
          start_time = millis s0
      in seq_while (seq3_body e) timeout start_time () s0)"

subsection \<open>Sequences 4 and 5: fade all in and out\<close>

definition seq4_body :: "env \<Rightarrow> unit stmt" where
  "seq4_body e =
     run [for_each [0..<255] (\<lambda>j. run [poll e, wr (set_all (of_nat j)), pause e 1]),
          for_each (rev [0..<256]) (\<lambda>j. run [poll e, wr (set_all (of_nat j)), pause e 1]),
          wait_poll e 100]"

definition seq4 :: "env \<Rightarrow> int \<Rightarrow> hw \<Rightarrow> int res option" where
  "seq4 e timeout s =
     (let s0 = set_all 0 s;
          start_time = millis s0
      in seq_while (seq4_body e) timeout start_time () s0)"

text \<open>
  \<^verbatim>\<open>for(int j = 0; j < 255; j+=4)\<close> takes \<open>j = 0, 4, .., 252\<close>, and
  \<^verbatim>\<open>for(int j = 255; j >= 0; j-=4)\<close> takes \<open>j = 255, 251, .., 3\<close>.
\<close>

definition seq5_body :: "env \<Rightarrow> unit stmt" where
  "seq5_body e =
     run [for_each (map (\<lambda>i. 4 * i) [0..<64])
            (\<lambda>j. run [poll e, wr (set_all (of_nat j)), pause e 1]),
          for_each (map (\<lambda>i. 255 - 4 * i) [0..<64])
            (\<lambda>j. run [poll e, wr (set_all (of_nat j)), pause e 1]),
          wait_poll e 30]"

definition seq5 :: "env \<Rightarrow> int \<Rightarrow> hw \<Rightarrow> int res option" where
  "seq5 e timeout s =
     (let s0 = set_all 0 s;
          start_time = millis s0
      in seq_while (seq5_body e) timeout start_time () s0)"

subsection \<open>Sequences 6 and 7: chases\<close>

text \<open>
  \<^verbatim>\<open>for(int j = 0; j < 200; j+=2)\<close> takes \<open>j = 0, 2, .., 198\<close>, and
  \<^verbatim>\<open>for(int j = 0; j <= 200; j+=2)\<close> takes \<open>j = 0, 2, .., 200\<close>.
  \<open>rise e k\<close> brings channel \<open>k\<close> up from dark, \<open>hand_off e k k'\<close> takes channel
  \<open>k\<close> down while \<open>k'\<close> comes up, \<open>fall e k\<close> takes channel \<open>k\<close> down.
\<close>

definition rise :: "env \<Rightarrow> nat \<Rightarrow> unit stmt" where
  "rise e k =
     for_each (map (\<lambda>i. 2 * i) [0..<100]) (\<lambda>j. run [poll e, wr (ocr_write k (of_nat j))])"

definition hand_off :: "env \<Rightarrow> nat \<Rightarrow> nat \<Rightarrow> unit stmt" where
  "hand_off e k k' =
     for_each (map (\<lambda>i. 2 * i) [0..<101])
       (\<lambda>j. run [poll e, wr (ocr_write k (of_nat (200 - j))), wr (ocr_write k' (of_nat j))])"

definition fall :: "env \<Rightarrow> nat \<Rightarrow> unit stmt" where
  "fall e k =
     for_each (map (\<lambda>i. 2 * i) [0..<101])
       (\<lambda>j. run [poll e, wr (ocr_write k (of_nat (200 - j)))])"

definition seq6_body :: "env \<Rightarrow> unit stmt" where
  "seq6_body e =
     run [rise e 1, hand_off e 1 2, hand_off e 2 3, hand_off e 3 4, fall e 4,
          wait_poll e 100]"

definition seq6 :: "env \<Rightarrow> int \<Rightarrow> hw \<Rightarrow> int res option" where
  "seq6 e timeout s =
     (let s0 = set_all 0 s;
          start_time = millis s0
      in seq_while (seq6_body e) timeout start_time () s0)"

definition seq7_body :: "env \<Rightarrow> unit stmt" where
  "seq7_body e =
     run [rise e 1, hand_off e 1 2, hand_off e 2 3, hand_off e 3 4, fall e 4,
          wait_poll e 100,
          rise e 4, hand_off e 4 3, hand_off e 3 2, hand_off e 2 1, fall e 1,
          wait_poll e 100]"

definition seq7 :: "env \<Rightarrow> int \<Rightarrow> hw \<Rightarrow> int res option" where
  "seq7 e timeout s =
     (let s0 = set_all 0 s;
          start_time = millis s0
      in seq_while (seq7_body e) timeout start_time () s0)"

subsection \<open>Sequences 8 and 9: brown-outs, and flash with fade-out\<close>

definition inc_all :: "hw \<Rightarrow> hw" where
  "inc_all s = s\<lparr>OCR0A := OCR0A s + 1, OCR0B := OCR0B s + 1,
                 OCR1B := OCR1B s + 1, OCR1A := OCR1A s + 1\<rparr>"

definition dec_all :: "hw \<Rightarrow> hw" where
  "dec_all s = s\<lparr>OCR0A := OCR0A s - 1, OCR0B := OCR0B s - 1,
                 OCR1B := OCR1B s - 1, OCR1A := OCR1A s - 1\<rparr>"

definition inc2_all :: "hw \<Rightarrow> hw" where
  "inc2_all s = s\<lparr>OCR0A := OCR0A s + 2, OCR0B := OCR0B s + 2,
                  OCR1B := OCR1B s + 2, OCR1A := OCR1A s + 2\<rparr>"

definition seq8_intro :: "env \<Rightarrow> unit stmt" where
  "seq8_intro e =
     for_each [0..<60] (\<lambda>i. run [poll e, wr (set_all (of_nat i)), pause e 2])"

definition seq8_body :: "env \<Rightarrow> unit stmt" where
  "seq8_body e =
     run [times 100 (run [poll e, pause e 5]),
          times 60 (run [poll e, wr dec_all, pause e 3]),
          times 60 (run [poll e, wr inc_all, pause e 4]),
          times 100 (run [poll e, pause e 10]),
          times 40 (run [poll e, wr inc_all, pause e 2]),
          times 40 (run [poll e, wr dec_all, pause e 2]),
          times 30 (run [poll e, wr dec_all, pause e 5]),
          times 100 (run [poll e, pause e 20]),
          times 30 (run [poll e, wr inc_all, pause e 5]),
          times 100 (run [poll e, pause e 30]),
          times 40 (run [poll e, wr inc_all, pause e 2]),
          times 100 (run [poll e, pause e 20]),
          times 40 (run [poll e, wr dec_all, pause e 2])]"

text \<open>The start time is taken before the introductory ramp.\<close>

definition seq8 :: "env \<Rightarrow> int \<Rightarrow> hw \<Rightarrow> int res option" where
  "seq8 e timeout s =
     (let s0 = set_all 0 s;
          start_time = millis s0
      in case seq8_intro e () s0 of
           None \<Rightarrow> None
         | Some (Restarted s') \<Rightarrow> Some (Reset s')
         | Some (Returned r s') \<Rightarrow> Some (Val r s')
         | Some (Continue l s1) \<Rightarrow> seq_while (seq8_body e) timeout start_time l s1)"

definition seq9_body :: "env \<Rightarrow> unit stmt" where
  "seq9_body e =
     run [times 100 (run [poll e, wr inc2_all]),
          times 8 (run [poll e, pause e 1]),
          times 200 (run [poll e, wr dec_all, pause e 35]),
          times 100 (run [poll e, pause e 10])]"

definition seq9 :: "env \<Rightarrow> int \<Rightarrow> hw \<Rightarrow> int res option" where
  "seq9 e timeout s =
     (let s0 = set_all 0 s;
          start_time = millis s0
      in seq_while (seq9_body e) timeout start_time () s0)"

subsection \<open>Sequences 10 and 11: random fades\<close>

text \<open>
  The locals are the arrays \<^verbatim>\<open>direction[4]\<close> and \<^verbatim>\<open>brightness[4]\<close>, indexed
  \<open>0 .. 3\<close>. \<^verbatim>\<open>rand()\<close> draws the next value of the environment.
\<close>

record walk =
  direction :: "nat \<Rightarrow> int"
  brightness :: "nat \<Rightarrow> u8"

definition rand :: "env \<Rightarrow> hw \<Rightarrow> nat \<times> hw" where
  "rand e s = (rnd e (rand_calls s), s\<lparr>rand_calls := rand_calls s + 1\<rparr>)"

definition show_walk :: "walk stmt" where
  "show_walk l s =
     Some (Continue l (s\<lparr>OCR0A := brightness l 0, OCR0B := brightness l 1,
                          OCR1A := brightness l 2, OCR1B := brightness l 3\<rparr>))"

definition seq10_update :: "nat \<Rightarrow> walk stmt" where
  "seq10_update i l s =
     (if 0 < direction l i \<and> brightness l i < 255 then
        let l1 = l\<lparr>brightness := (brightness l)(i := brightness l i + 1)\<rparr>
        in if 255 \<le> brightness l1 i
           then Some (Continue (l1\<lparr>brightness := (brightness l1)(i := 255),
                                   direction := (direction l1)(i := - 1)\<rparr>) s)
           else Some (Continue l1 s)
      else if direction l i < 0 then
        let l1 = (if 0 < brightness l i
                  then l\<lparr>brightness := (brightness l)(i := brightness l i - 1)\<rparr> else l)
        in if brightness l1 i \<le> 0
           then Some (Continue (l1\<lparr>brightness := (brightness l1)(i := 0),
                                   direction := (direction l1)(i := 0)\<rparr>) s)
           else Some (Continue l1 s)
      else Some (Continue l s))"

text \<open>
  \<^verbatim>\<open>if((rand() % n) == 0){ led = rand() % 4; if(0 == direction[led]) direction[led] = d; }\<close>
\<close>

definition choose_led :: "env \<Rightarrow> nat \<Rightarrow> int \<Rightarrow> walk stmt" where
  "choose_led e n d l s =
     (let (r, s1) = rand e s in
      if r mod n = 0 then
        let (r', s2) = rand e s1;
            led = r' mod 4
        in if direction l led = 0
           then Some (Continue (l\<lparr>direction := (direction l)(led := d)\<rparr>) s2)
           else Some (Continue l s2)
      else Some (Continue l s1))"

definition seq10_body :: "env \<Rightarrow> walk stmt" where
  "seq10_body e =
     run [poll e, for_each [0..<4] seq10_update, show_walk, choose_led e 50 1]"

definition seq10 :: "env \<Rightarrow> int \<Rightarrow> hw \<Rightarrow> int res option" where
  "seq10 e timeout s =
     (let s0 = set_all 0 s;
          start_time = millis s0
      in seq_while (seq10_body e) timeout start_time
           \<lparr>direction = (\<lambda>_. 0), brightness = (\<lambda>_. 0)\<rparr> s0)"

definition seq11_update :: "nat \<Rightarrow> walk stmt" where
  "seq11_update i l s =
     (if direction l i < 0 \<and> 0 < brightness l i then
        let l1 = l\<lparr>brightness := (brightness l)(i := brightness l i - 1)\<rparr>
        in if brightness l1 i \<le> 0
           then Some (Continue (l1\<lparr>brightness := (brightness l1)(i := 0),
                                   direction := (direction l1)(i := 1)\<rparr>) s)
           else Some (Continue l1 s)
      else if 0 < direction l i then
        let l1 = (if brightness l i < 255
                  then l\<lparr>brightness := (brightness l)(i := brightness l i + 1)\<rparr> else l)
        in if 255 \<le> brightness l1 i
           then Some (Continue (l1\<lparr>brightness := (brightness l1)(i := 255),
                                   direction := (direction l1)(i := 0)\<rparr>) s)
           else Some (Continue l1 s)
      else Some (Continue l s))"

definition seq11_body :: "env \<Rightarrow> walk stmt" where
  "seq11_body e =
     run [poll e, for_each [0..<4] seq11_update, show_walk, choose_led e 100 (- 1)]"

definition seq11 :: "env \<Rightarrow> int \<Rightarrow> hw \<Rightarrow> int res option" where
  "seq11 e timeout s =
     (let s0 = set_all 255 s;
          start_time = millis s0
      in seq_while (seq11_body e) timeout start_time
           \<lparr>direction = (\<lambda>_. 0), brightness = (\<lambda>_. 255)\<rparr> s0)"

subsection \<open>Sequence 12: the sound-reactive flasher\<close>

text \<open>The locals are \<^verbatim>\<open>leds\<close> and \<^verbatim>\<open>led_time\<close>.\<close>

record vu =
  leds :: u8
  led_time :: u16

text \<open>
  \<^verbatim>\<open>mic_buffer[mic_buffer_current] = adc_read(1); mic_buffer_current++;
  mic_buffer_current = mic_buffer_current % MIC_BUFFER_SIZE;\<close>
\<close>

definition sample_mic :: "env \<Rightarrow> hw \<Rightarrow> hw" where
  "sample_mic e s =
     (let (v, s1) = adc_read e 1 s;
          s2 = s1\<lparr>mic_buffer := (mic_buffer s1)(nat (mic_buffer_current s1) := v)\<rparr>;
          s3 = s2\<lparr>mic_buffer_current := mic_buffer_current s2 + 1\<rparr>
      in s3\<lparr>mic_buffer_current := mic_buffer_current s3 mod int MIC_BUFFER_SIZE\<rparr>)"

text \<open>\<^verbatim>\<open>if(mic > 40){ mic = mic - 40; } else { mic = 0; }\<close>\<close>

definition noise_floor :: "u16 \<Rightarrow> u16" where
  "noise_floor mic = (if 40 < mic then mic - 40 else 0)"

text \<open>\<^verbatim>\<open>if(mic > 63) mic = 63; mic = mic<<2;\<close>\<close>

definition scale_up :: "u16 \<Rightarrow> u16" where
  "scale_up mic = push_bit 2 (if 63 < mic then 63 else mic)"

text \<open>
  The level is computed and written to the four registers; then comes the fade-out
  step on the local \<^verbatim>\<open>leds\<close>. \<^verbatim>\<open>led_time + 1\<close> is a 16-bit sum.
\<close>

definition show_level :: "vu stmt" where
  "show_level l s =
     (let mic = scale_up (noise_floor (get_mic_buffer_mad s));
          l1 = l\<lparr>leds := ucast mic\<rparr>;
          s1 = set_all (leds l1) s
      in if ucast (led_time l1 + 1) < millis s1 then
           let l2 = l1\<lparr>led_time := ucast (millis s1)\<rparr>
           in Some (Continue (if 0 < leds l2 then l2\<lparr>leds := leds l2 - 1\<rparr> else l2) s1)
         else Some (Continue l1 s1))"

definition seq12_body :: "env \<Rightarrow> vu stmt" where
  "seq12_body e = run [wr (sample_mic e), show_level, poll e]"

definition seq12 :: "env \<Rightarrow> int \<Rightarrow> hw \<Rightarrow> int res option" where
  "seq12 e timeout s =
     (let s0 = init_mic_buffer (set_all 0 s);
          start_time = millis s0
      in seq_while (seq12_body e) timeout start_time
           \<lparr>leds = 0, led_time = ucast (millis s0)\<rparr> s0)"

text \<open>The table \<^verbatim>\<open>seq[NUM_SEQ]\<close> of the demo mode, and sequence 12 after it.\<close>

definition seq :: "nat \<Rightarrow> env \<Rightarrow> int \<Rightarrow> hw \<Rightarrow> int res option" where
  "seq n =
     (if n = 1 then seq1 else if n = 2 then seq2 else if n = 3 then seq3
      else if n = 4 then seq4 else if n = 5 then seq5 else if n = 6 then seq6
      else if n = 7 then seq7 else if n = 8 then seq8 else if n = 9 then seq9
      else if n = 10 then seq10 else if n = 11 then seq11 else seq12)"

subsection \<open>Observations used in the statements\<close>

text \<open>What the converter reads on the button input (input 0) in slot \<open>i\<close>.\<close>

definition button :: "env \<Rightarrow> nat \<Rightarrow> u16" where
  "button e i = ucast (adc_in e 0 i)"

text \<open>The trace of \<open>n\<close> rounds of the confirmation blink, newest event first.\<close>

definition blink_events :: "nat \<Rightarrow> event list" where
  "blink_events n = concat (replicate n [Shown 0 0 0 0 50, Shown 255 255 255 255 50])"

fun restarted :: "'a res \<Rightarrow> bool" where
  "restarted (Reset s) = True"
| "restarted (Val r s) = False"

fun returned :: "'a res \<Rightarrow> 'a option" where
  "returned (Reset s) = None"
| "returned (Val r s) = Some r"

fun final :: "'a res \<Rightarrow> hw" where
  "final (Reset s) = s"
| "final (Val r s) = s"

subsection \<open>Time, as the statements speak of it\<close>

text \<open>
  The time base counts in fifths of a millisecond: \<open>clock\<close> is the number of timer-0
  interrupts that the two counters stand for, \<open>served e i n\<close> the number of interrupts
  served in the \<open>n\<close> slots from slot \<open>i\<close> on. An environment is \<open>released\<close> when the
  button never reads as pressed, and \<open>ticking\<close> when every slot sees an interrupt.
\<close>

definition clock :: "hw \<Rightarrow> nat" where
  "clock s = 5 * unat (millis s) + unat (timer_interrupt_ticks s)"

definition ticks_ok :: "hw \<Rightarrow> bool" where
  "ticks_ok s = (timer_interrupt_ticks s \<le> 4)"

definition served :: "env \<Rightarrow> nat \<Rightarrow> nat \<Rightarrow> nat" where
  "served e i n = sum_list (map (ovf e) [i..<i + n])"

definition released :: "env \<Rightarrow> bool" where
  "released e = (\<forall>i. \<not> button e i < 1000)"

definition ticking :: "env \<Rightarrow> bool" where
  "ticking e = (\<forall>i. 1 \<le> ovf e i)"

text \<open>
  The button is never held through a long press: no call of the input monitor can find
  its three samples (at the call, 301 and 3302 slots later) all below the threshold.
\<close>

definition no_long_press :: "env \<Rightarrow> bool" where
  "no_long_press e =
     (\<forall>i. \<not> (button e i < 1000 \<and> button e (i + 301) < 1000 \<and> button e (i + 3302) < 1000))"

text \<open>
  \<open>keeps_time e s0 M s\<close>: the counters of \<open>s\<close> are those of \<open>s0\<close> advanced by the
  interrupts of the slots passed since, and the millisecond counter does not wrap
  within \<open>M\<close> slots of \<open>s0\<close>.
\<close>

definition keeps_time :: "env \<Rightarrow> hw \<Rightarrow> nat \<Rightarrow> hw \<Rightarrow> bool" where
  "keeps_time e s0 M s =
     (ticks_ok s \<and> slot s0 \<le> slot s \<and>
      clock s = clock s0 + served e (slot s0) (slot s - slot s0) \<and>
      clock s0 + served e (slot s0) M < 5 * 2 ^ 64)"

text \<open>
  \<open>quiet_stmt e s0 M c lo hi\<close>: while time is kept and \<open>hi\<close> slots remain, the
  statement \<open>c\<close> falls through, after at least \<open>lo\<close> and at most \<open>hi\<close> slots.
\<close>

definition quiet_stmt :: "env \<Rightarrow> hw \<Rightarrow> nat \<Rightarrow> 'l stmt \<Rightarrow> nat \<Rightarrow> nat \<Rightarrow> bool" where
  "quiet_stmt e s0 M c lo hi =
     (\<forall>l s. keeps_time e s0 M s \<and> slot s - slot s0 + hi \<le> M \<longrightarrow>
        (\<exists>l' s'. c l s = Some (Continue l' s') \<and> keeps_time e s0 M s' \<and>
                 slot s + lo \<le> slot s' \<and> slot s' \<le> slot s + hi))"

text \<open>
  \<open>step_reports e s1 s'\<close>: one input-watching statement begun in \<open>s1\<close>, a direct
  check or a wait, leaves the sequence with value 1 in \<open>s'\<close>.
\<close>

definition step_reports :: "env \<Rightarrow> hw \<Rightarrow> hw \<Rightarrow> bool" where
  "step_reports e s1 s' =
     (poll e () s1 = Some (Returned 1 s') \<or> (\<exists>d. wait_poll e d () s1 = Some (Returned 1 s')))"

text \<open>
  \<open>flow_reports e s r\<close>, for the outcome \<open>r\<close> of a statement begun in \<open>s\<close>: it fell
  through only if no call of the input monitor returned 1 inside it; it left the
  sequence by \<^verbatim>\<open>return\<close> only with value 1, from an input-watching statement begun
  when no call had yet returned 1; and the device restarted inside it only from a call
  of the input monitor. \<open>reports e c\<close>: every outcome of the statement \<open>c\<close> is such.
\<close>

definition flow_reports :: "env \<Rightarrow> hw \<Rightarrow> 'l flow option \<Rightarrow> bool" where
  "flow_reports e s r =
     (case r of
        None \<Rightarrow> True
      | Some (Restarted s') \<Rightarrow>
          (\<exists>s1 ev. trace s1 = ev @ trace s \<and> check_button_input e s1 = Reset s')
      | Some (Returned v s') \<Rightarrow>
          v = 1 \<and> (\<exists>s1 ev. trace s1 = ev @ trace s \<and> Checked 1 \<notin> set ev \<and>
                             step_reports e s1 s')
      | Some (Continue l' s') \<Rightarrow>
          (\<exists>ev. trace s' = ev @ trace s \<and> Checked 1 \<notin> set ev))"

definition reports :: "env \<Rightarrow> 'l stmt \<Rightarrow> bool" where
  "reports e c = (\<forall>l s. flow_reports e s (c l s))"

text \<open>
  \<open>ends_on_press e s r\<close>: the run \<open>r\<close> of a sequence started in \<open>s\<close> never ends, or
  returns 1 from an input-watching statement begun when no call of the input monitor
  had yet returned 1, or ends in a restart of the device by the input monitor.
\<close>

definition ends_on_press :: "env \<Rightarrow> hw \<Rightarrow> int res option \<Rightarrow> bool" where
  "ends_on_press e s r =
     (case r of
        None \<Rightarrow> True
      | Some (Reset s') \<Rightarrow>
          (\<exists>s1 ev. trace s1 = ev @ trace s \<and> check_button_input e s1 = Reset s')
      | Some (Val v s') \<Rightarrow>
          v = 1 \<and> (\<exists>s1 ev. trace s1 = ev @ trace s \<and> Checked 1 \<notin> set ev \<and>
                             step_reports e s1 s'))"

text \<open>
  \<open>tapped e p\<close>: the button reads as pressed in the 301 slots from slot \<open>p\<close> on, and
  in no other.
\<close>

definition tapped :: "env \<Rightarrow> nat \<Rightarrow> bool" where
  "tapped e p = (\<forall>i. button e i < 1000 \<longleftrightarrow> p \<le> i \<and> i \<le> p + 300)"

text \<open>
  \<open>alert e s0 M p c r ob lo\<close>: while time is kept, the statement \<open>c\<close>, begun no
  later than \<open>r\<close> slots after slot \<open>p\<close>, either leaves the sequence with value 1, not
  later than 3102 slots after \<open>p\<close>, or falls through, after at least \<open>lo\<close> slots and
  no later than \<open>ob\<close> slots after \<open>p\<close>.
\<close>

definition alert :: "env \<Rightarrow> hw \<Rightarrow> nat \<Rightarrow> nat \<Rightarrow> 'l stmt \<Rightarrow> nat \<Rightarrow> nat \<Rightarrow> nat \<Rightarrow> bool" where
  "alert e s0 M p c r ob lo =
     (\<forall>l s. keeps_time e s0 M s \<and> slot s \<le> p + r \<longrightarrow>
        (\<exists>s'. c l s = Some (Returned 1 s') \<and> slot s' \<le> p + 3102) \<or>
        (\<exists>l' s'. c l s = Some (Continue l' s') \<and> keeps_time e s0 M s' \<and>
                 slot s + lo \<le> slot s' \<and> slot s' \<le> p + ob))"

text \<open>
  \<open>timed_out e t s hi r\<close>: the run \<open>r\<close>, started in \<open>s\<close> with timeout \<open>t\<close>, returned
  0 when the millisecond counter had advanced by \<open>t\<close> or more, and at most \<open>hi\<close>
  slots after the start or after a slot \<open>j\<close> at which the counter had not yet
  reached the deadline.
\<close>

definition timed_out :: "env \<Rightarrow> int \<Rightarrow> hw \<Rightarrow> nat \<Rightarrow> int res option \<Rightarrow> bool" where
  "timed_out e t s hi r =
     (\<exists>s'. r = Some (Val 0 s') \<and> unat (millis s) + nat t \<le> unat (millis s') \<and>
           (\<exists>j. (j = 0 \<or> clock s + served e (slot s) j < 5 * (unat (millis s) + nat t)) \<and>
                slot s' \<le> slot s + j + hi))"

text \<open>
  The body of sequence \<open>n\<close> takes at most \<open>cycle_slots n\<close> slots when the button is
  released and the clock ticks (for sequence 8 the introductory ramp is shorter).
\<close>

definition cycle_slots :: "nat \<Rightarrow> nat" where
  "cycle_slots n =
     (if n = 1 then 4080 else if n = 2 then 4335 else if n = 3 then 11014
      else if n = 4 then 1522 else if n = 5 then 406 else if n = 6 then 1004
      else if n = 7 then 2008 else if n = 8 then 10380 else if n = 9 then 8416
      else if n = 10 then 1 else if n = 11 then 1 else 2)"

subsection \<open>Concrete states and environments\<close>

definition hw0 :: hw where
  "hw0 = \<lparr>OCR0A = 0, OCR0B = 0, OCR1B = 0, OCR1A = 0, PORTB = 0,
          timer_interrupt_ticks = 0, millis = 0, mic_buffer = (\<lambda>_. 0),
          mic_buffer_current = 0, settings_start_seq = 0, settings_start_seq_ee = 0,
          wdt = None, slot = 0, rand_calls = 0, trace = []\<rparr>"

text \<open>Button released, microphone silent, four timer-0 overflows in every slot.\<close>

definition quiet :: env where
  "quiet = \<lparr>adc_in = (\<lambda>ch i. if ch = 0 then 1023 else 512), ovf = (\<lambda>_. 4), rnd = (\<lambda>_. 1)\<rparr>"

text \<open>Button held down for good.\<close>

definition held :: env where
  "held = \<lparr>adc_in = (\<lambda>ch i. if ch = 0 then 0 else 512), ovf = (\<lambda>_. 4), rnd = (\<lambda>_. 1)\<rparr>"

text \<open>Button down in slot 0 only.\<close>

definition blip :: env where
  "blip = \<lparr>adc_in = (\<lambda>ch i. if ch = 0 \<and> 0 < i then 1023 else 0), ovf = (\<lambda>_. 4),
           rnd = (\<lambda>_. 1)\<rparr>"

text \<open>Button released; the microphone reads 0 in slot 0 and mid-scale afterwards.\<close>

definition clap :: env where
  "clap = \<lparr>adc_in = (\<lambda>ch i. if ch = 0 then 1023 else if i = 0 then 0 else 512),
           ovf = (\<lambda>_. 4), rnd = (\<lambda>_. 1)\<rparr>"

text \<open>Button down in the slots 1000 to 1300, released before and after.\<close>

definition tap :: env where
  "tap = \<lparr>adc_in = (\<lambda>ch i. if ch = 0 then (if 1000 \<le> i \<and> i \<le> 1300 then 0 else 1023) else 512),
          ovf = (\<lambda>_. 4), rnd = (\<lambda>_. 1)\<rparr>"

text \<open>
  The four compare registers and the millisecond counter after a statement that fell
  through.
\<close>

fun lit :: "'l flow option \<Rightarrow> (u8 \<times> u8 \<times> u8 \<times> u8 \<times> u64) option" where
  "lit (Some (Continue l s)) = Some (OCR0A s, OCR0B s, OCR1B s, OCR1A s, millis s)"
| "lit _ = None"

section \<open>Properties\<close>

subsection \<open>The time base\<close>

lemma ticks_cases:
  assumes "(t::u16) \<le> 4"
  shows "t = 0 \<or> t = 1 \<or> t = 2 \<or> t = 3 \<or> t = 4"
proof -
  have "unat t \<le> 4" using assms by (simp add: word_le_nat_alt)
  then have "unat t = 0 \<or> unat t = 1 \<or> unat t = 2 \<or> unat t = 3 \<or> unat t = 4" by arith
  then have "unat t = unat (0::u16) \<or> unat t = unat (1::u16) \<or> unat t = unat (2::u16) \<or> unat t = unat (3::u16) \<or> unat t = unat (4::u16)"
    by simp
  then show ?thesis by (simp only: word_unat_eq_iff)
qed

lemma ovf_step:
  assumes "timer_interrupt_ticks s \<le> 4"
  shows "TIMER0_OVF_vect s =
     s\<lparr>timer_interrupt_ticks := of_nat ((unat (timer_interrupt_ticks s) + 1) mod 5),
       millis := millis s + of_nat ((unat (timer_interrupt_ticks s) + 1) div 5)\<rparr>"
  using ticks_cases [OF assms]
  by (auto simp: TIMER0_OVF_vect_def Let_def)

lemma div_mod_5_step: "(k::nat) div 5 + (k mod 5 + 1) div 5 = (k + 1) div 5"
  by presburger

lemma ovf_iter_gen:
  "timer_interrupt_ticks s \<le> 4 \<Longrightarrow>
   (TIMER0_OVF_vect ^^ n) s =
     s\<lparr>timer_interrupt_ticks := of_nat ((unat (timer_interrupt_ticks s) + n) mod 5),
       millis := millis s + of_nat ((unat (timer_interrupt_ticks s) + n) div 5)\<rparr>"
proof (induction n)
  case 0
  then have "unat (timer_interrupt_ticks s) \<le> 4" by (simp add: word_le_nat_alt)
  then show ?case by simp
next
  case (Suc n)
  let ?k = "unat (timer_interrupt_ticks s) + n"
  let ?sn = "s\<lparr>timer_interrupt_ticks := of_nat (?k mod 5), millis := millis s + of_nat (?k div 5)\<rparr>"
  have u: "unat (of_nat (?k mod 5) :: u16) = ?k mod 5"
    by (simp add: unat_of_nat)
  have le: "timer_interrupt_ticks ?sn \<le> 4"
    using u by (simp add: word_le_nat_alt)
  have "(TIMER0_OVF_vect ^^ Suc n) s = TIMER0_OVF_vect ?sn"
    using Suc by simp
  also have "\<dots> = ?sn\<lparr>timer_interrupt_ticks := of_nat ((?k mod 5 + 1) mod 5),
       millis := millis ?sn + of_nat ((?k mod 5 + 1) div 5)\<rparr>"
    using ovf_step [OF le] u by simp
  also have "\<dots> = s\<lparr>timer_interrupt_ticks := of_nat ((?k + 1) mod 5),
       millis := millis s + of_nat ((?k + 1) div 5)\<rparr>"
    using div_mod_5_step [of ?k] 
    by (simp add: mod_Suc_eq add.assoc flip: of_nat_add)
  finally show ?case by simp
qed

lemma ovf_iter:
  "timer_interrupt_ticks s = 0 \<Longrightarrow>
   (TIMER0_OVF_vect ^^ n) s =
     s\<lparr>timer_interrupt_ticks := of_nat (n mod 5), millis := millis s + of_nat (n div 5)\<rparr>"
  using ovf_iter_gen [of s n] by simp

subsection \<open>What a slot, a delay and a conversion leave alone\<close>

lemma isr0_fields [simp]:
  "OCR0A (TIMER0_OVF_vect s) = OCR0A s" "OCR0B (TIMER0_OVF_vect s) = OCR0B s"
  "OCR1B (TIMER0_OVF_vect s) = OCR1B s" "OCR1A (TIMER0_OVF_vect s) = OCR1A s"
  "PORTB (TIMER0_OVF_vect s) = PORTB s" "mic_buffer (TIMER0_OVF_vect s) = mic_buffer s"
  "mic_buffer_current (TIMER0_OVF_vect s) = mic_buffer_current s"
  "settings_start_seq (TIMER0_OVF_vect s) = settings_start_seq s"
  "settings_start_seq_ee (TIMER0_OVF_vect s) = settings_start_seq_ee s"
  "wdt (TIMER0_OVF_vect s) = wdt s" "slot (TIMER0_OVF_vect s) = slot s"
  "rand_calls (TIMER0_OVF_vect s) = rand_calls s" "trace (TIMER0_OVF_vect s) = trace s"
  by (simp_all add: TIMER0_OVF_vect_def Let_def)

lemma isr0_pow_fields [simp]:
  "OCR0A ((TIMER0_OVF_vect ^^ n) s) = OCR0A s" "OCR0B ((TIMER0_OVF_vect ^^ n) s) = OCR0B s"
  "OCR1B ((TIMER0_OVF_vect ^^ n) s) = OCR1B s" "OCR1A ((TIMER0_OVF_vect ^^ n) s) = OCR1A s"
  "PORTB ((TIMER0_OVF_vect ^^ n) s) = PORTB s"
  "mic_buffer ((TIMER0_OVF_vect ^^ n) s) = mic_buffer s"
  "mic_buffer_current ((TIMER0_OVF_vect ^^ n) s) = mic_buffer_current s"
  "settings_start_seq ((TIMER0_OVF_vect ^^ n) s) = settings_start_seq s"
  "settings_start_seq_ee ((TIMER0_OVF_vect ^^ n) s) = settings_start_seq_ee s"
  "wdt ((TIMER0_OVF_vect ^^ n) s) = wdt s" "slot ((TIMER0_OVF_vect ^^ n) s) = slot s"
  "rand_calls ((TIMER0_OVF_vect ^^ n) s) = rand_calls s"
  "trace ((TIMER0_OVF_vect ^^ n) s) = trace s"
  by (induction n) simp_all

lemma slot_pass_fields [simp]:
  "OCR0A (slot_pass e s) = OCR0A s" "OCR0B (slot_pass e s) = OCR0B s"
  "OCR1B (slot_pass e s) = OCR1B s" "OCR1A (slot_pass e s) = OCR1A s"
  "PORTB (slot_pass e s) = PORTB s" "mic_buffer (slot_pass e s) = mic_buffer s"
  "mic_buffer_current (slot_pass e s) = mic_buffer_current s"
  "settings_start_seq (slot_pass e s) = settings_start_seq s"
  "settings_start_seq_ee (slot_pass e s) = settings_start_seq_ee s"
  "wdt (slot_pass e s) = wdt s" "slot (slot_pass e s) = Suc (slot s)"
  "rand_calls (slot_pass e s) = rand_calls s" "trace (slot_pass e s) = trace s"
  by (simp_all add: slot_pass_def)

lemma slot_pass_pow_fields [simp]:
  "OCR0A ((slot_pass e ^^ n) s) = OCR0A s" "OCR0B ((slot_pass e ^^ n) s) = OCR0B s"
  "OCR1B ((slot_pass e ^^ n) s) = OCR1B s" "OCR1A ((slot_pass e ^^ n) s) = OCR1A s"
  "PORTB ((slot_pass e ^^ n) s) = PORTB s"
  "mic_buffer ((slot_pass e ^^ n) s) = mic_buffer s"
  "mic_buffer_current ((slot_pass e ^^ n) s) = mic_buffer_current s"
  "settings_start_seq ((slot_pass e ^^ n) s) = settings_start_seq s"
  "settings_start_seq_ee ((slot_pass e ^^ n) s) = settings_start_seq_ee s"
  "wdt ((slot_pass e ^^ n) s) = wdt s" "slot ((slot_pass e ^^ n) s) = slot s + n"
  "rand_calls ((slot_pass e ^^ n) s) = rand_calls s"
  "trace ((slot_pass e ^^ n) s) = trace s"
  by (induction n) simp_all

lemma delay_ms_fields [simp]:
  "OCR0A (delay_ms e n s) = OCR0A s" "OCR0B (delay_ms e n s) = OCR0B s"
  "OCR1B (delay_ms e n s) = OCR1B s" "OCR1A (delay_ms e n s) = OCR1A s"
  "PORTB (delay_ms e n s) = PORTB s" "mic_buffer (delay_ms e n s) = mic_buffer s"
  "mic_buffer_current (delay_ms e n s) = mic_buffer_current s"
  "settings_start_seq (delay_ms e n s) = settings_start_seq s"
  "settings_start_seq_ee (delay_ms e n s) = settings_start_seq_ee s"
  "wdt (delay_ms e n s) = wdt s" "slot (delay_ms e n s) = slot s + n"
  "rand_calls (delay_ms e n s) = rand_calls s"
  "trace (delay_ms e n s) = Shown (OCR0A s) (OCR0B s) (OCR1B s) (OCR1A s) n # trace s"
  by (simp_all add: delay_ms_def)

lemma set_all_fields [simp]:
  "OCR0A (set_all v s) = v" "OCR0B (set_all v s) = v"
  "OCR1B (set_all v s) = v" "OCR1A (set_all v s) = v"
  "PORTB (set_all v s) = PORTB s" "mic_buffer (set_all v s) = mic_buffer s"
  "mic_buffer_current (set_all v s) = mic_buffer_current s"
  "settings_start_seq (set_all v s) = settings_start_seq s"
  "settings_start_seq_ee (set_all v s) = settings_start_seq_ee s"
  "wdt (set_all v s) = wdt s" "slot (set_all v s) = slot s"
  "rand_calls (set_all v s) = rand_calls s" "trace (set_all v s) = trace s"
  "millis (set_all v s) = millis s"
  "timer_interrupt_ticks (set_all v s) = timer_interrupt_ticks s"
  by (simp_all add: set_all_def)


lemma slot_pass_stalled: "\<forall>i. ovf e i = 0 \<Longrightarrow> slot_pass e s = s\<lparr>slot := Suc (slot s)\<rparr>"
  by (simp add: slot_pass_def)

lemma slot_pass_pow_stalled:
  "\<forall>i. ovf e i = 0 \<Longrightarrow> millis ((slot_pass e ^^ n) s) = millis s"
  by (induction n) (simp_all add: slot_pass_stalled)

lemma millis_every_fifth_tick:
  "(timer_interrupt_ticks s < 4 \<longrightarrow>
      TIMER0_OVF_vect s = s\<lparr>timer_interrupt_ticks := timer_interrupt_ticks s + 1\<rparr>) \<and>
   (timer_interrupt_ticks s = 4 \<longrightarrow>
      TIMER0_OVF_vect s = s\<lparr>timer_interrupt_ticks := 0, millis := millis s + 1\<rparr>) \<and>
   (timer_interrupt_ticks s = 0 \<longrightarrow>
      (TIMER0_OVF_vect ^^ n) s =
        s\<lparr>timer_interrupt_ticks := of_nat (n mod 5), millis := millis s + of_nat (n div 5)\<rparr>)"
proof -
  have a: "TIMER0_OVF_vect s = s\<lparr>timer_interrupt_ticks := timer_interrupt_ticks s + 1\<rparr>"
    if "timer_interrupt_ticks s < 4"
  proof -
    have "\<not> 4 < timer_interrupt_ticks s + 1" using that by unat_arith
    then show ?thesis by (simp add: TIMER0_OVF_vect_def Let_def)
  qed
  have b: "TIMER0_OVF_vect s = s\<lparr>timer_interrupt_ticks := 0, millis := millis s + 1\<rparr>"
    if "timer_interrupt_ticks s = 4"
    using that by (simp add: TIMER0_OVF_vect_def Let_def)
  show ?thesis using a b ovf_iter [of s n] by simp
qed

lemma blink_stalled: "\<forall>i. ovf e i = 0 \<Longrightarrow> millis (blink e n s) = millis s"
  by (induction n arbitrary: s) (simp_all add: delay_ms_def slot_pass_pow_stalled)

lemma millis_modified_nowhere_else:
  "millis (TIMER1_OVF_vect s) = millis s" "millis (TIMER1_COMPA_vect s) = millis s"
  "millis (save_settings s) = millis s" "millis (load_settings s) = millis s"
  "millis (reset s) = millis s" "millis (init_mic_buffer s) = millis s"
  "millis (set_all v s) = millis s" "millis (ocr_write k v s) = millis s"
  "millis (inc_all s) = millis s" "millis (dec_all s) = millis s"
  "millis (inc2_all s) = millis s"
  "\<forall>i. ovf e i = 0 \<Longrightarrow> millis (delay_ms e n s) = millis s"
  "\<forall>i. ovf e i = 0 \<Longrightarrow> millis (snd (adc_read e ch s)) = millis s"
  "\<forall>i. ovf e i = 0 \<Longrightarrow> millis (blink e n s) = millis s"
  "\<forall>i. ovf e i = 0 \<Longrightarrow> millis (final (check_button_input e s)) = millis s"
  "\<forall>i. ovf e i = 0 \<Longrightarrow> millis (sample_mic e s) = millis s"
  by (simp_all add: TIMER1_OVF_vect_def TIMER1_COMPA_vect_def save_settings_def
      load_settings_def reset_def init_mic_buffer_def ocr_write_def inc_all_def dec_all_def
      inc2_all_def delay_ms_def slot_pass_pow_stalled slot_pass_stalled adc_read_def
      blink_stalled check_button_input_def Let_def returns_def sample_mic_def)

text \<open>
  C8 fails on the code. The interrupt routine tests the tick counter after adding one to
  it, with \<^verbatim>\<open>timer_interrupt_ticks > 4\<close>: the millisecond counter moves at every
  fifth interrupt. At the tick of 0.25 ms that the source assumes, four interrupts
  (1 ms) leave the millisecond counter at 0 and the tick counter at 4, the fifth moves
  it to 1, and 4000 interrupts (1 s) bring it to 800.
\<close>

theorem five_ticks_to_the_millisecond:
  "(TIMER0_OVF_vect ^^ 4) hw0 = hw0\<lparr>timer_interrupt_ticks := 4\<rparr> \<and>
   (TIMER0_OVF_vect ^^ 5) hw0 = hw0\<lparr>millis := 1\<rparr> \<and>
   (TIMER0_OVF_vect ^^ 4000) hw0 = hw0\<lparr>millis := 800\<rparr>"
  using ovf_iter [of hw0 4] ovf_iter [of hw0 5] ovf_iter [of hw0 4000]
  by (simp add: hw0_def)

subsection \<open>Emulated PWM\<close>

lemma pin_after_ovf: "4 < OCR1A s \<Longrightarrow> pin_high (TIMER1_OVF_vect s)"
  by (simp add: TIMER1_OVF_vect_def pin_high_def PB3_def bit_or_iff bit_push_bit_iff)

lemma pin_after_compa: "\<not> pin_high (TIMER1_COMPA_vect s)"
  by (simp add: TIMER1_COMPA_vect_def pin_high_def PB3_def bit_and_iff bit_not_iff bit_push_bit_iff)

lemma ovf_dead_zone: "OCR1A s \<le> 4 \<Longrightarrow> TIMER1_OVF_vect s = s"
  by (simp add: TIMER1_OVF_vect_def not_less [symmetric])

lemma timer1_isr_duty [simp]:
  "OCR1A (TIMER1_OVF_vect s) = OCR1A s" "OCR1A (TIMER1_COMPA_vect s) = OCR1A s"
  by (simp_all add: TIMER1_OVF_vect_def TIMER1_COMPA_vect_def)

lemma timer1_idle:
  "0 < a \<Longrightarrow> a \<le> b \<Longrightarrow> \<forall>c. a \<le> c \<and> c < b \<longrightarrow> c \<noteq> unat (OCR1A s) \<Longrightarrow>
   fold timer1_count [a..<b] (s, h) = (s, h + (if pin_high s then b - a else 0))"
proof (induction b)
  case 0
  then show ?case by simp
next
  case (Suc b)
  show ?case
  proof (cases "a \<le> b")
    case True
    with Suc have "fold timer1_count [a..<b] (s, h) = (s, h + (if pin_high s then b - a else 0))"
      by simp
    moreover have "b \<noteq> unat (OCR1A s)" "b \<noteq> 0" using Suc.prems True by auto
    then have "timer1_count b (s, k) = (s, if pin_high s then k + 1 else k)" for k
      by (simp add: timer1_count_def Let_def)
    ultimately show ?thesis using True
      by (cases "pin_high s") (simp_all add: Suc_diff_le)
  next
    case False
    with Suc.prems have "a = Suc b" by simp
    then show ?thesis by simp
  qed
qed

lemma timer1_period_high:
  assumes "4 < OCR1A s"
  shows "snd (timer1_period s) = unat (OCR1A s)"
proof -
  let ?d = "unat (OCR1A s)"
  let ?s1 = "TIMER1_OVF_vect s"
  let ?s2 = "TIMER1_COMPA_vect ?s1"
  have "?d < 2 ^ LENGTH(8)" by (rule unsigned_less)
  then have d: "4 < ?d" "?d < 256"
    using assms by (simp_all add: word_less_nat_alt)
  have split: "[0..<256] = [0] @ [1..<?d] @ [?d] @ [Suc ?d..<256]"
  proof -
    have "[0..<256] = [0..<?d] @ [?d..<256]"
      using d by (metis less_imp_le_nat upt_add_eq_append le_add_diff_inverse zero_le)
    moreover have "[0..<?d] = [0] @ [1..<?d]" using d by (simp add: upt_rec)
    moreover have "[?d..<256] = [?d] @ [Suc ?d..<256]" using d by (simp add: upt_rec)
    ultimately show ?thesis by simp
  qed
  have a: "fold timer1_count [0] (s, 0) = (?s1, 1)"
    using d pin_after_ovf [OF assms] by (simp add: timer1_count_def Let_def)
  have b: "fold timer1_count [1..<?d] (?s1, 1) = (?s1, ?d)"
    using d pin_after_ovf [OF assms] timer1_idle [of 1 ?d ?s1 1] by simp
  have c: "fold timer1_count [?d] (?s1, ?d) = (?s2, ?d)"
    using d pin_after_compa [of ?s1] by (simp add: timer1_count_def Let_def)
  have e: "fold timer1_count [Suc ?d..<256] (?s2, ?d) = (?s2, ?d)"
    using d pin_after_compa [of ?s1] timer1_idle [of "Suc ?d" 256 ?s2 ?d] by simp
  show ?thesis
    by (simp only: timer1_period_def split fold_append comp_apply a b c e snd_conv)
qed

lemma timer1_dead_fold:
  "OCR1A (fst p) \<le> 4 \<Longrightarrow> \<not> pin_high (fst p) \<Longrightarrow> snd p = 0 \<Longrightarrow>
   snd (fold timer1_count cs p) = 0 \<and> \<not> pin_high (fst (fold timer1_count cs p))"
proof (induction cs arbitrary: p)
  case Nil
  then show ?case by simp
next
  case (Cons c cs)
  have "OCR1A (fst (timer1_count c p)) \<le> 4" "\<not> pin_high (fst (timer1_count c p))"
    "snd (timer1_count c p) = 0"
    using Cons.prems by (simp_all add: timer1_count_def Let_def ovf_dead_zone pin_after_compa)
  then show ?case using Cons.IH [of "timer1_count c p"] by simp
qed

lemma timer1_period_dead:
  assumes "OCR1A s \<le> 4" and "\<not> pin_high s"
  shows "snd (timer1_period s) = 0 \<and> \<not> pin_high (fst (timer1_period s))"
  using timer1_dead_fold [of "(s, 0)" "[0..<256]"] assms by (simp add: timer1_period_def)


text \<open>
  C3. The compare-match interrupt drives the pin low. For a duty value above 4 the
  overflow interrupt drives the pin high, the pin is high for exactly \<open>d\<close> of the 256
  counts of a timer period, and this fraction is within one count of \<open>d / 255\<close>. For a
  duty value of 4 or less the overflow interrupt leaves the pin alone, and a pin that
  is low stays low for the whole period.
\<close>

theorem pwm_duty_cycle:
  "\<not> pin_high (TIMER1_COMPA_vect s) \<and>
   (4 < OCR1A s \<longrightarrow>
      pin_high (TIMER1_OVF_vect s) \<and>
      snd (timer1_period s) = unat (OCR1A s) \<and>
      \<bar>real (snd (timer1_period s)) / 256 - real (unat (OCR1A s)) / 255\<bar> \<le> 1 / 256) \<and>
   (OCR1A s \<le> 4 \<longrightarrow>
      TIMER1_OVF_vect s = s \<and>
      (\<not> pin_high s \<longrightarrow>
         snd (timer1_period s) = 0 \<and> \<not> pin_high (fst (timer1_period s))))"
proof -
  have frac: "\<bar>real d / 256 - real d / 255\<bar> \<le> 1 / 256" if "d < 256" for d :: nat
  proof -
    have "real d / 256 - real d / 255 = - (real d / 65280)" by simp
    moreover have "real d / 65280 \<le> 1 / 256" using that by simp
    ultimately show ?thesis by simp
  qed
  have "unat (OCR1A s) < 2 ^ LENGTH(8)" by (rule unsigned_less)
  then have "unat (OCR1A s) < 256" by simp
  then have "\<bar>real (unat (OCR1A s)) / 256 - real (unat (OCR1A s)) / 255\<bar> \<le> 1 / 256"
    by (rule frac)
  then show ?thesis
    by (simp add: pin_after_compa pin_after_ovf ovf_dead_zone timer1_period_high timer1_period_dead)
qed

theorem pwm_duty_cycle_witness:
  "snd (timer1_period (hw0\<lparr>OCR1A := 128\<rparr>)) = 128 \<and>
   snd (timer1_period (hw0\<lparr>OCR1A := 3\<rparr>)) = 0 \<and>
   TIMER1_OVF_vect (hw0\<lparr>OCR1A := 3\<rparr>) = hw0\<lparr>OCR1A := 3\<rparr>"
  using pwm_duty_cycle [of "hw0\<lparr>OCR1A := 128\<rparr>"] pwm_duty_cycle [of "hw0\<lparr>OCR1A := 3\<rparr>"]
  by (simp add: hw0_def pin_high_def PB3_def)

subsection \<open>The input monitor\<close>

lemma blink_trace:
  "trace (blink e n s) = blink_events n @ trace s \<and> slot (blink e n s) = slot s + 100 * n \<and>
   settings_start_seq (blink e n s) = settings_start_seq s \<and> wdt (blink e n s) = wdt s \<and>
   OCR0A (blink e n s) = (if n = 0 then OCR0A s else 0) \<and>
   OCR0B (blink e n s) = (if n = 0 then OCR0B s else 0) \<and>
   OCR1B (blink e n s) = (if n = 0 then OCR1B s else 0) \<and>
   OCR1A (blink e n s) = (if n = 0 then OCR1A s else 0)"
proof (induction n arbitrary: s)
  case 0
  then show ?case by (simp add: blink_events_def)
next
  case (Suc n)
  have r: "concat (replicate n [a, b]) @ [a, b] = a # b # concat (replicate n [a, b])" for a b :: event
    by (induction n) simp_all
  show ?case
    using Suc [of "delay_ms e 50 (set_all 0 (delay_ms e 50 (set_all 255 s)))"]
    by (simp add: blink_events_def r)
qed

lemma long_press:
  assumes "button e (slot s) < 1000" and "button e (slot s + 301) < 1000"
    and "button e (slot s + 3302) < 1000"
  shows "\<exists>s'. check_button_input e s = Reset s' \<and>
           trace s' = Shown 0 0 0 0 2000 # blink_events 10 @
              [Shown (OCR0A s) (OCR0B s) (OCR1B s) (OCR1A s) 3000,
               Shown (OCR0A s) (OCR0B s) (OCR1B s) (OCR1A s) 300] @ trace s \<and>
           settings_start_seq_ee s' = settings_start_seq s \<and>
           wdt s' = Some WDTO_30MS"
  using assms blink_trace [of e 10 "slot_pass e (delay_ms e 3000 (slot_pass e (delay_ms e 300 (slot_pass e s))))"]
  by (simp add: check_button_input_def adc_read_def button_def Let_def save_settings_def reset_def
      add.commute)

lemma tap:
  assumes "button e (slot s) < 1000"
    and "\<not> (button e (slot s + 301) < 1000 \<and> button e (slot s + 3302) < 1000)"
  shows "\<exists>s'. check_button_input e s = Val 1 s' \<and> slot s + 302 \<le> slot s'"
  using assms
  by (auto simp add: check_button_input_def adc_read_def button_def Let_def returns_def add.commute)

lemma released:
  assumes "\<not> button e (slot s) < 1000"
  shows "check_button_input e s = Val 0 ((slot_pass e s)\<lparr>trace := Checked 0 # trace s\<rparr>)"
  using assms
  by (simp add: check_button_input_def adc_read_def button_def Let_def returns_def)

text \<open>
  C4. If the first sample, the sample after the 300 ms debounce delay and the sample
  after the further 3000 ms hold delay all read below 1000, the call does not return:
  after the two delays the four channels blink ten times (all at 255 for 50 ms, all at
  0 for 50 ms) and stay dark for 2000 ms, the pending settings byte is written to its
  EEPROM cell, and the watchdog is armed with its 30 ms timeout.
\<close>

theorem long_press_restarts:
  assumes "button e (slot s) < 1000" and "button e (slot s + 301) < 1000"
    and "button e (slot s + 3302) < 1000"
  shows "\<exists>s'. check_button_input e s = Reset s' \<and>
           trace s' = Shown 0 0 0 0 2000 # blink_events 10 @
              [Shown (OCR0A s) (OCR0B s) (OCR1B s) (OCR1A s) 3000,
               Shown (OCR0A s) (OCR0B s) (OCR1B s) (OCR1A s) 300] @ trace s \<and>
           settings_start_seq_ee s' = settings_start_seq s \<and>
           wdt s' = Some WDTO_30MS"
  using assms by (rule long_press)

theorem long_press_restarts_witness:
  "\<exists>s'. check_button_input held (hw0\<lparr>settings_start_seq := 7\<rparr>) = Reset s' \<and>
        trace s' = Shown 0 0 0 0 2000 # blink_events 10 @
                     [Shown 0 0 0 0 3000, Shown 0 0 0 0 300] \<and>
        settings_start_seq_ee s' = 7 \<and> wdt s' = Some WDTO_30MS"
  using long_press_restarts [of held "hw0\<lparr>settings_start_seq := 7\<rparr>"]
  by (simp add: button_def held_def hw0_def)

text \<open>
  C9, as stated, fails when the button stays down: with all three samples below the
  threshold the call restarts the device and returns nothing.
\<close>

theorem held_button_returns_nothing:
  "button held (slot hw0) < 1000 \<and> returned (check_button_input held hw0) = None"
proof -
  have "\<exists>s'. check_button_input held hw0 = Reset s'"
    using long_press [of held hw0] by (auto simp: button_def held_def hw0_def)
  then show ?thesis by (auto simp: button_def held_def hw0_def)
qed

text \<open>
  C9, amended. If the first sample reads below 1000, the call never returns 0; it
  returns 1 unless the two later samples read below 1000 as well; and when the sample
  after the debounce delay reads 1000 or more, it returns 1 right after that sample,
  302 slots (one conversion, 300 ms, one conversion) after the call began.
\<close>

theorem blip_is_reported:
  assumes "button e (slot s) < 1000"
  shows "returned (check_button_input e s) \<noteq> Some 0 \<and>
         (\<not> (button e (slot s + 301) < 1000 \<and> button e (slot s + 3302) < 1000) \<longrightarrow>
            returned (check_button_input e s) = Some 1) \<and>
         (\<not> button e (slot s + 301) < 1000 \<longrightarrow>
            returned (check_button_input e s) = Some 1 \<and>
            slot (final (check_button_input e s)) = slot s + 302 \<and>
            trace (final (check_button_input e s)) =
              [Checked 1, Shown (OCR0A s) (OCR0B s) (OCR1B s) (OCR1A s) 300] @ trace s)"
  using assms
  by (simp add: check_button_input_def adc_read_def button_def Let_def returns_def add.commute)

theorem blip_is_reported_witness:
  "returned (check_button_input blip hw0) = Some 1 \<and>
   slot (final (check_button_input blip hw0)) = 302"
  using blip_is_reported [of blip hw0] by (simp add: button_def blip_def hw0_def)

subsection \<open>The sound envelope estimator\<close>

lemma upt_16: "[0..<16] = [0,1,2,3,4,5,6,7,8,9,10,11,12,13,14,15]"
  by (simp add: upt_rec)

lemma mad_const_aux:
  fixes v :: u16
  assumes "v \<le> 1023"
  shows "(16 * v) div 16 = v"
proof -
  have "unat v \<le> 1023" using assms by (simp add: word_le_nat_alt)
  then have "unat (16 * v) = 16 * unat v"
    by (simp add: unat_word_ariths)
  then have "unat ((16 * v) div 16) = unat v"
    by (simp add: unat_div)
  then show ?thesis by (simp only: word_unat_eq_iff)
qed

lemma mad_identical:
  assumes "\<forall>i<16. mic_buffer s i = v" and "v \<le> 1023"
  shows "get_mic_buffer_mad s = 0"
proof -
  have t: "fold (\<lambda>i t. t + mic_buffer s i) [0..<16] 0 = 16 * v"
    using assms(1) by (simp add: upt_16)
  show ?thesis
    using assms(1) by (simp add: get_mic_buffer_mad_def MIC_BUFFER_SIZE_def t mad_const_aux [OF assms(2)] Let_def)
     (simp add: upt_16 abs16_def)
qed

lemma init_buf: "i < 16 \<Longrightarrow> mic_buffer (init_mic_buffer s) i = 512"
  apply (simp add: init_mic_buffer_def MIC_BUFFER_SIZE_def upt_16)
  by arith

lemma sint16: "sint (w::u16) = (if uint w < 32768 then uint w else uint w - 65536)"
proof -
  have "uint w < 2 ^ LENGTH(16)" by (rule uint_lt2p)
  then have b: "0 \<le> uint w" "uint w < 65536" by simp_all
  have s: "sint w = (uint w + 32768) mod 65536 - 32768"
    by (simp add: sint_uint signed_take_bit_eq_take_bit_shift take_bit_eq_mod)
  show ?thesis
  proof (cases "uint w < 32768")
    case True
    then have "(uint w + 32768) mod 65536 = uint w + 32768"
      using b by (intro mod_pos_pos_trivial) simp_all
    then show ?thesis using s True by simp
  next
    case False
    have "(uint w + 32768) mod 65536 = (uint w - 32768 + 65536) mod 65536"
      by (rule arg_cong [where f = "\<lambda>x. x mod 65536"]) simp
    also have "\<dots> = (uint w - 32768) mod 65536" by (rule mod_add_self2)
    also have "\<dots> = uint w - 32768"
      using b False by (intro mod_pos_pos_trivial) simp_all
    finally have "(uint w + 32768) mod 65536 = uint w - 32768" .
    then show ?thesis using s False by simp
  qed
qed

lemma abs16_dist:
  fixes a c :: u16
  assumes "a \<le> 1023" and "c \<le> 1023"
  shows "unat (abs16 (a - c)) = (if unat a < unat c then unat c - unat a else unat a - unat c)"
proof -
  have ia: "0 \<le> uint a" "uint a \<le> 1023" using assms(1) by (simp_all add: word_le_def)
  have ic: "0 \<le> uint c" "uint c \<le> 1023" using assms(2) by (simp_all add: word_le_def)
  have na: "unat a = nat (uint a)" and nc: "unat c = nat (uint c)" by simp_all
  show ?thesis
  proof (cases "uint a < uint c")
    case True
    then have ca: "a \<le> c" by (simp add: word_le_def)
    have u: "unat (c - a) = unat c - unat a" using ca by (rule unat_sub)
    have "uint (a - c) = uint a - uint c + 65536"
      using True by (simp add: uint_sub_if_size word_size)
    then have "\<not> uint (a - c) < 32768" using ia ic by linarith
    then have "sint (a - c) < 0"
      using uint_lt2p [of "a - c"] by (simp add: sint16)
    then have "abs16 (a - c) = c - a" by (simp add: abs16_def)
    moreover have "unat a < unat c" using True ia ic by (simp only: na nc)
    ultimately show ?thesis using u by simp
  next
    case False
    then have ca: "c \<le> a" by (simp add: word_le_def)
    have u: "unat (a - c) = unat a - unat c" using ca by (rule unat_sub)
    have "uint (a - c) = uint a - uint c"
      using False by (simp add: uint_sub_if_size word_size)
    then have "uint (a - c) < 32768" using ia ic by linarith
    then have "\<not> sint (a - c) < 0" by (simp add: sint16)
    then have "abs16 (a - c) = a - c" by (simp add: abs16_def)
    moreover have "\<not> unat a < unat c" using False ia ic by (simp only: na nc)
    ultimately show ?thesis using u by simp
  qed
qed

lemma fold_add_unat:
  fixes f :: "nat \<Rightarrow> u16"
  assumes "\<forall>i\<in>set is. unat (f i) \<le> B" and "unat t + length is * B < 65536"
  shows "unat (fold (\<lambda>i t. t + f i) is t) = unat t + (\<Sum>i\<leftarrow>is. unat (f i))"
  using assms
proof (induction "is" arbitrary: t)
  case Nil
  then show ?case by simp
next
  case (Cons i "is")
  have fi: "unat (f i) \<le> B" using Cons.prems(1) by simp
  then have "unat t + unat (f i) < 65536" using Cons.prems(2) by simp
  then have u: "unat (t + f i) = unat t + unat (f i)"
    by (simp add: unat_add_lem [THEN iffD1])
  have "unat (t + f i) + length is * B < 65536" using u fi Cons.prems(2) by simp
  then show ?case using Cons.IH [of "t + f i"] Cons.prems(1) u by simp
qed

lemma chord:
  fixes x m :: nat
  assumes "x \<le> 1023" and "m \<le> 1023"
  shows "1023 * (if x < m then m - x else x - m) + 2 * m * x \<le> 1023 * m + 1023 * x"
proof (cases "x < m")
  case True
  then obtain d where d: "m = x + d" using less_imp_add_positive by blast
  have "(x + d) * x \<le> 1023 * x" using assms(2) d by simp
  then show ?thesis using d True by (simp add: algebra_simps)
next
  case False
  then obtain d where d: "x = m + d" using le_Suc_ex not_less by blast
  have "m * (m + d) \<le> m * 1023" using assms(1) d by simp
  then show ?thesis using d False by (simp add: algebra_simps)
qed

lemma chord_sum:
  fixes m :: nat
  assumes "\<forall>x\<in>set xs. x \<le> 1023" and "m \<le> 1023"
  shows "1023 * (\<Sum>x\<leftarrow>xs. if x < m then m - x else x - m) + 2 * m * sum_list xs
           \<le> 1023 * m * length xs + 1023 * sum_list xs"
  using assms(1)
proof (induction xs)
  case Nil
  then show ?case by simp
next
  case (Cons x xs)
  have "1023 * (if x < m then m - x else x - m) + 2 * m * x \<le> 1023 * m + 1023 * x"
    using chord [of x m] Cons.prems assms(2) by simp
  moreover have "1023 * (\<Sum>x\<leftarrow>xs. if x < m then m - x else x - m) + 2 * m * sum_list xs
           \<le> 1023 * m * length xs + 1023 * sum_list xs"
    using Cons by simp
  ultimately show ?case by (simp add: algebra_simps)
qed

lemma parabola: "1023 * (m::nat) \<le> 261632 + m * m"
proof -
  have "(int m - 511) * (int m - 512) \<ge> 0"
    by (cases "m \<le> 511") (auto intro: mult_nonpos_nonpos mult_nonneg_nonneg)
  then have "1023 * int m \<le> 261632 + int m * int m" by (simp add: algebra_simps)
  then have "int (1023 * m) \<le> int (261632 + m * m)" by simp
  then show ?thesis by (simp only: of_nat_le_iff)
qed

lemma mad_sum_bound:
  fixes xs :: "nat list"
  assumes "\<forall>x\<in>set xs. x \<le> 1023" and "length xs = 16"
  shows "(\<Sum>x\<leftarrow>xs. if x < sum_list xs div 16 then sum_list xs div 16 - x
                    else x - sum_list xs div 16) \<le> 8207"
proof -
  let ?S = "sum_list xs"
  let ?m = "?S div 16"
  let ?D = "(\<Sum>x\<leftarrow>xs. if x < ?m then ?m - x else x - ?m)"
  have S: "?S \<le> 16 * 1023"
    using sum_list_mono [of xs "\<lambda>x. x" "\<lambda>_. 1023"] assms by (simp add: sum_list_triv)
  then have m: "?m \<le> 1023" by simp
  have c: "1023 * ?D + 2 * ?m * ?S \<le> 1023 * ?m * 16 + 1023 * ?S"
    using chord_sum [OF assms(1) m] assms(2) by simp
  obtain r where r: "?S = 16 * ?m + r" "r < 16"
    by (metis mod_less_divisor mult_div_mod_eq zero_less_numeral)
  have p': "1023 * ?m \<le> 261632 + ?m * ?m" by (rule parabola)
  have "1023 * ?D + 2 * ?m * (16 * ?m + r) \<le> 1023 * ?m * 16 + 1023 * (16 * ?m + r)"
    using c r(1) by simp
  then have "1023 * ?D + 32 * (?m * ?m) \<le> 32 * (1023 * ?m) + 1023 * r"
    by (simp add: algebra_simps)
  then have "1023 * ?D \<le> 32 * 261632 + 1023 * 15" using p' r(2) by simp
  then show ?thesis by simp
qed

lemma ucast_adc_le: "(ucast (v::adc10) :: u16) \<le> 1023"
proof -
  have "uint v < 2 ^ LENGTH(10)" by (rule uint_lt2p)
  moreover have "uint (ucast v :: u16) = uint v" by (rule uint_up_ucast) (simp add: is_up)
  ultimately have "uint (ucast v :: u16) \<le> 1023" by simp
  then show ?thesis by (simp add: word_le_def)
qed

lemma mad_unat:
  assumes r: "\<forall>i<16. mic_buffer s i \<le> 1023"
  shows "unat (get_mic_buffer_mad s) =
           (\<Sum>x\<leftarrow>map (\<lambda>i. unat (mic_buffer s i)) [0..<16].
              if x < sum_list (map (\<lambda>i. unat (mic_buffer s i)) [0..<16]) div 16
              then sum_list (map (\<lambda>i. unat (mic_buffer s i)) [0..<16]) div 16 - x
              else x - sum_list (map (\<lambda>i. unat (mic_buffer s i)) [0..<16]) div 16) div 16"
proof -
  let ?b = "mic_buffer s"
  let ?xs = "map (\<lambda>i. unat (?b i)) [0..<16]"
  let ?total = "fold (\<lambda>i t. t + ?b i) [0..<16] (0::u16)"
  let ?mean = "?total div 16"
  let ?m = "sum_list ?xs div 16"
  have bi: "unat (?b i) \<le> 1023" if "i < 16" for i
    using r that by (simp add: word_le_nat_alt)
  have t: "unat ?total = sum_list ?xs"
    using fold_add_unat [of "[0..<16]" ?b 1023 0] bi by (simp add: comp_def)
  have S: "sum_list ?xs \<le> 16 * 1023"
    using sum_list_mono [of "[0..<16]" "\<lambda>i. unat (?b i)" "\<lambda>_. 1023"] bi
    by (simp add: sum_list_triv)
  have m: "unat ?mean = ?m" by (simp add: unat_div t)
  have mle: "?mean \<le> 1023" using m S by (simp add: word_le_nat_alt)
  have d: "unat (abs16 (?b i - ?mean)) = (if unat (?b i) < ?m then ?m - unat (?b i) else unat (?b i) - ?m)"
    if "i < 16" for i
    using abs16_dist [of "?b i" ?mean] r that mle m by simp
  have dle: "unat (abs16 (?b i - ?mean)) \<le> 1023" if "i < 16" for i
    using d [OF that] bi [OF that] S by (auto split: if_splits)
  have "unat (fold (\<lambda>i m. m + abs16 (?b i - ?mean)) [0..<16] 0) =
          (\<Sum>i\<leftarrow>[0..<16]. unat (abs16 (?b i - ?mean)))"
    using fold_add_unat [of "[0..<16]" "\<lambda>i. abs16 (?b i - ?mean)" 1023 0] dle by simp
  also have "\<dots> = (\<Sum>i\<leftarrow>[0..<16]. if unat (?b i) < ?m then ?m - unat (?b i) else unat (?b i) - ?m)"
    by (rule arg_cong [where f = sum_list], rule map_cong) (simp_all add: d)
  also have "\<dots> = (\<Sum>x\<leftarrow>?xs. if x < ?m then ?m - x else x - ?m)"
    by (simp add: comp_def)
  finally show ?thesis
    by (simp add: get_mic_buffer_mad_def MIC_BUFFER_SIZE_def Let_def unat_div)
qed

lemma mad_le_512:
  assumes "\<forall>i<16. mic_buffer s i \<le> 1023"
  shows "get_mic_buffer_mad s \<le> 512"
proof -
  let ?xs = "map (\<lambda>i. unat (mic_buffer s i)) [0..<16]"
  have "\<forall>x\<in>set ?xs. x \<le> 1023" using assms by (auto simp: word_le_nat_alt)
  then have "(\<Sum>x\<leftarrow>?xs. if x < sum_list ?xs div 16 then sum_list ?xs div 16 - x
                    else x - sum_list ?xs div 16) \<le> 8207"
    by (intro mad_sum_bound) simp_all
  then have "unat (get_mic_buffer_mad s) \<le> 512"
    unfolding mad_unat [OF assms] by simp
  then show ?thesis by (simp add: word_le_nat_alt)
qed

lemma noise_floor_unat: "unat (noise_floor mic) = unat mic - 40"
proof (cases "40 < mic")
  case True
  then have "40 \<le> mic" by simp
  then have "unat (mic - 40) = unat mic - unat (40::u16)" by (rule unat_sub)
  then show ?thesis using True by (simp add: noise_floor_def)
next
  case False
  then have "unat mic \<le> 40" by (simp add: word_less_nat_alt)
  then show ?thesis using False by (simp add: noise_floor_def)
qed

lemma sample_mic_range:
  assumes "\<forall>i<16. mic_buffer s i \<le> 1023"
  shows "\<forall>i<16. mic_buffer (sample_mic e s) i \<le> 1023"
  using assms ucast_adc_le by (simp add: sample_mic_def adc_read_def Let_def)

lemma init_mic_buffer_mad: "get_mic_buffer_mad (init_mic_buffer s) = 0"
  using mad_identical [of "init_mic_buffer s" 512] by (simp add: init_buf)

text \<open>
  C5. When all 16 entries of the ring buffer hold the same converter reading \<open>v\<close>,
  \<^verbatim>\<open>get_mic_buffer_mad\<close> returns 0. \<^verbatim>\<open>init_mic_buffer\<close> fills the 16 entries with
  512 and sets the write index to 0, so the first computation after it returns 0.
\<close>

theorem mad_of_identical_samples:
  "((\<forall>i<16. mic_buffer s i = ucast (v :: adc10)) \<longrightarrow> get_mic_buffer_mad s = 0) \<and>
   (\<forall>i<16. mic_buffer (init_mic_buffer s) i = 512) \<and>
   mic_buffer_current (init_mic_buffer s) = 0 \<and>
   get_mic_buffer_mad (init_mic_buffer s) = 0"
  using mad_identical [of s "ucast v"] ucast_adc_le [of v]
  by (simp add: init_buf init_mic_buffer_mad) (simp add: init_mic_buffer_def)

theorem mad_of_identical_samples_witness:
  "get_mic_buffer_mad (hw0\<lparr>mic_buffer := (\<lambda>_. 700)\<rparr>) = 0"
  using mad_of_identical_samples [of "hw0\<lparr>mic_buffer := (\<lambda>_. 700)\<rparr>" 700] by simp

text \<open>
  C6. The buffer only ever holds converter readings (at most 1023): initialisation
  and sampling keep it so. For such a buffer \<^verbatim>\<open>get_mic_buffer_mad\<close> returns a value
  between 0 and 512, and the noise-floor step that follows yields the value less 40
  without wrapping below zero: exactly 0 whenever the value is 40 or less.
\<close>

theorem mad_bounded_and_floor_clamped:
  assumes "\<forall>i<16. mic_buffer s i \<le> 1023"
  shows "0 \<le> get_mic_buffer_mad s \<and> get_mic_buffer_mad s \<le> 512 \<and>
         unat (noise_floor (get_mic_buffer_mad s)) = unat (get_mic_buffer_mad s) - 40 \<and>
         (get_mic_buffer_mad s \<le> 40 \<longrightarrow> noise_floor (get_mic_buffer_mad s) = 0) \<and>
         (\<forall>i<16. mic_buffer (init_mic_buffer s) i \<le> 1023) \<and>
         (\<forall>i<16. mic_buffer (sample_mic e s) i \<le> 1023)"
  using mad_le_512 [OF assms] sample_mic_range [OF assms, of e]
  by (simp add: noise_floor_unat init_buf) (simp add: noise_floor_def not_less [symmetric])

theorem mad_bounded_and_floor_clamped_witness:
  "get_mic_buffer_mad (hw0\<lparr>mic_buffer := (\<lambda>i. if i = 0 then 0 else 512)\<rparr>) \<le> 512 \<and>
   noise_floor (get_mic_buffer_mad (hw0\<lparr>mic_buffer := (\<lambda>_. 512)\<rparr>)) = 0"
  using mad_bounded_and_floor_clamped [of "hw0\<lparr>mic_buffer := (\<lambda>i. if i = 0 then 0 else 512)\<rparr>"]
    mad_bounded_and_floor_clamped [of "hw0\<lparr>mic_buffer := (\<lambda>_. 512)\<rparr>"]
    mad_identical [of "hw0\<lparr>mic_buffer := (\<lambda>_. 512)\<rparr>" 512]
  by simp

subsection \<open>Waiting while watching the button\<close>

lemma check_trace:
  assumes "check_button_input e s = Val r s'"
  shows "(r = 0 \<or> r = 1) \<and> (\<exists>ev. trace s' = Checked r # ev @ trace s \<and> Checked 1 \<notin> set ev) \<and>
         slot s < slot s'"
  using assms
  by (auto simp: check_button_input_def adc_read_def Let_def returns_def split: if_splits)

lemma wait_loop_partial:
  assumes "delay_millis_check_button_loop e deadline bp s = Some y"
  shows "case y of Reset s' \<Rightarrow> True
    | Val r s' \<Rightarrow> deadline \<le> millis s' \<and> slot s \<le> slot s' \<and>
        (\<exists>ev. trace s' = ev @ trace s \<and> r = (if Checked 1 \<in> set ev then 1 else bp))"
  using assms
proof (induct rule: delay_millis_check_button_loop.raw_induct [rotated 1, consumes 1])
  case (1 loop e deadline bp s y)
  show ?case
  proof (cases "millis s < deadline")
    case False
    with 1(2) have "y = Val bp s" "deadline \<le> millis s" by (simp_all add: not_less)
    moreover have "trace s = [] @ trace s \<and> bp = (if Checked 1 \<in> set [] then 1 else bp)"
      by simp
    ultimately show ?thesis by (simp only: res.case) blast
  next
    case True
    show ?thesis
    proof (cases "check_button_input e s")
      case (Reset s1)
      with True 1(2) show ?thesis by auto
    next
      case (Val r1 s1)
      from check_trace [OF Val] obtain ev1 where
        r1: "r1 = 0 \<or> r1 = 1" and t1: "trace s1 = Checked r1 # ev1 @ trace s"
        and n1: "Checked 1 \<notin> set ev1" and sl: "slot s < slot s1" by auto
      from True Val 1(2) have
        call: "loop e deadline (if r1 \<noteq> 0 then 1 else bp) s1 = Some y" by simp
      show ?thesis
      proof (cases y)
        case (Reset s')
        then show ?thesis by simp
      next
        case (Val r s')
        with 1(1) [OF call] obtain ev where
          d: "deadline \<le> millis s'" and sl': "slot s1 \<le> slot s'"
          and t: "trace s' = ev @ trace s1"
          and r: "r = (if Checked 1 \<in> set ev then 1 else if r1 \<noteq> 0 then 1 else bp)"
          by auto
        have "trace s' = (ev @ Checked r1 # ev1) @ trace s" using t t1 by simp
        moreover have "r = (if Checked 1 \<in> set (ev @ Checked r1 # ev1) then 1 else bp)"
          using r r1 n1 by auto
        ultimately show ?thesis using Val d sl sl' by (simp del: append_assoc)
      qed
    qed
  qed
qed

lemma deadline_unat:
  fixes m :: u64
  assumes "0 \<le> d" and "unat m + nat d < 2 ^ 64"
  shows "unat (m + of_int d) = unat m + nat d"
proof -
  have "(of_int d :: u64) = of_nat (nat d)" using assms(1) by simp
  moreover have "unat (of_nat (nat d) :: u64) = nat d"
    using assms(2) by (simp add: unat_of_nat)
  ultimately show ?thesis using assms(2) by (simp add: unat_add_lem [THEN iffD1])
qed

lemma wait_returns_late:
  assumes "delay_millis_check_button e d s = Some (Val r s')"
  shows "millis s + of_int d \<le> millis s' \<and>
         (0 \<le> d \<and> unat (millis s) + nat d < 2 ^ 64 \<longrightarrow>
            unat (millis s) + nat d \<le> unat (millis s')) \<and>
         (\<exists>ev. trace s' = ev @ trace s \<and>
               (r = 1 \<longleftrightarrow> Checked 1 \<in> set ev) \<and> (r = 0 \<longleftrightarrow> Checked 1 \<notin> set ev))"
proof -
  from wait_loop_partial [OF assms [unfolded delay_millis_check_button_def]]
  obtain ev where d: "millis s + of_int d \<le> millis s'" and t: "trace s' = ev @ trace s"
    and r: "r = (if Checked 1 \<in> set ev then 1 else 0)" by auto
  have "unat (millis s) + nat d \<le> unat (millis s')"
    if "0 \<le> d" "unat (millis s) + nat d < 2 ^ 64"
    using d deadline_unat [OF that] by (simp add: word_le_nat_alt)
  then show ?thesis using d t r by auto
qed

subsection \<open>Keeping time\<close>

lemma served_0 [simp]: "served e i 0 = 0"
  by (simp add: served_def)

lemma served_Suc: "served e i (Suc n) = served e i n + ovf e (i + n)"
  by (simp add: served_def)

lemma served_add: "served e i (n + m) = served e i n + served e (i + n) m"
proof (induction m)
  case 0
  then show ?case by simp
next
  case (Suc m)
  have "served e i (n + Suc m) = served e i (Suc (n + m))" by simp
  also have "\<dots> = served e i (n + m) + ovf e (i + (n + m))" by (rule served_Suc)
  finally show ?case using Suc by (simp add: served_Suc add.assoc)
qed

lemma served_mono: "n \<le> m \<Longrightarrow> served e i n \<le> served e i m"
  using served_add [of e i n "m - n"] by simp

lemma served_ticking: "ticking e \<Longrightarrow> n \<le> served e i n"
proof (induction n)
  case 0
  then show ?case by simp
next
  case (Suc n)
  then have "1 \<le> ovf e (i + n)" by (simp add: ticking_def)
  with Suc show ?case by (simp add: served_Suc)
qed

lemma served_const: "\<forall>i. ovf e i = k \<Longrightarrow> served e i n = k * n"
  by (induction n) (simp_all add: served_Suc)

lemma clock_isr:
  assumes "ticks_ok s" and "clock s + n < 5 * 2 ^ 64"
  shows "clock ((TIMER0_OVF_vect ^^ n) s) = clock s + n \<and> ticks_ok ((TIMER0_OVF_vect ^^ n) s)"
proof -
  let ?t = "unat (timer_interrupt_ticks s)"
  let ?k = "?t + n"
  have le: "timer_interrupt_ticks s \<le> 4" using assms(1) by (simp add: ticks_ok_def)
  have ut: "unat (of_nat (?k mod 5) :: u16) = ?k mod 5" by (simp add: unat_of_nat)
  have "5 * unat (millis s) + ?k < 5 * 2 ^ 64" using assms(2) by (simp add: clock_def)
  then have b: "unat (millis s) + ?k div 5 < 2 ^ 64" by simp
  then have "?k div 5 < 2 ^ 64" by simp
  then have "unat (of_nat (?k div 5) :: u64) = ?k div 5" by (simp add: unat_of_nat)
  then have um: "unat (millis s + of_nat (?k div 5)) = unat (millis s) + ?k div 5"
    using b by (simp add: unat_add_lem [THEN iffD1])
  have "5 * (?k div 5) + ?k mod 5 = ?k" by simp
  then show ?thesis
    using ut um by (simp add: ovf_iter_gen [OF le] clock_def ticks_ok_def word_le_nat_alt)
qed

lemma keeps_time_frame:
  assumes "keeps_time e s0 M s" and "millis s' = millis s"
    and "timer_interrupt_ticks s' = timer_interrupt_ticks s" and "slot s' = slot s"
  shows "keeps_time e s0 M s'"
  using assms by (simp add: keeps_time_def clock_def ticks_ok_def)

lemma keeps_time_slot:
  assumes "keeps_time e s0 M s" and "slot s - slot s0 < M"
  shows "keeps_time e s0 M (slot_pass e s)"
proof -
  let ?n = "slot s - slot s0"
  have k: "ticks_ok s" "slot s0 \<le> slot s" "clock s = clock s0 + served e (slot s0) ?n"
    "clock s0 + served e (slot s0) M < 5 * 2 ^ 64"
    using assms(1) by (simp_all add: keeps_time_def)
  have "served e (slot s0) (Suc ?n) \<le> served e (slot s0) M"
    using assms(2) by (intro served_mono) simp
  then have "clock s + ovf e (slot s) < 5 * 2 ^ 64"
    using k by (simp add: served_Suc)
  from clock_isr [OF k(1) this]
  have "clock (slot_pass e s) = clock s + ovf e (slot s)" "ticks_ok (slot_pass e s)"
    by (simp_all add: slot_pass_def clock_def ticks_ok_def)
  moreover have "Suc (slot s) - slot s0 = Suc ?n" using k(2) by simp
  ultimately show ?thesis using k by (simp add: keeps_time_def served_Suc)
qed

lemma keeps_time_slots:
  assumes "keeps_time e s0 M s" and "slot s - slot s0 + n \<le> M"
  shows "keeps_time e s0 M ((slot_pass e ^^ n) s)"
  using assms(2)
proof (induction n)
  case 0
  then show ?case using assms(1) by simp
next
  case (Suc n)
  then have "keeps_time e s0 M ((slot_pass e ^^ n) s)" by simp
  moreover have "slot ((slot_pass e ^^ n) s) - slot s0 < M"
    using Suc.prems assms(1) by (simp add: keeps_time_def)
  ultimately show ?case by (simp add: keeps_time_slot)
qed

lemma keeps_time_start:
  assumes "ticks_ok s" and "clock s + served e (slot s) M < 5 * 2 ^ 64"
  shows "keeps_time e s M s"
  using assms by (simp add: keeps_time_def)

lemma keeps_time_millis:
  assumes "keeps_time e s0 M s"
  shows "unat (millis s) = clock s div 5"
proof -
  have "timer_interrupt_ticks s \<le> 4" using assms by (simp add: keeps_time_def ticks_ok_def)
  then have "unat (timer_interrupt_ticks s) \<le> 4" by (simp add: word_le_nat_alt)
  then show ?thesis by (simp add: clock_def)
qed

subsection \<open>Statements while the button is released\<close>

lemma quiet_stmtI:
  assumes "\<And>l s. keeps_time e s0 M s \<Longrightarrow> slot s - slot s0 + hi \<le> M \<Longrightarrow>
     \<exists>l' s'. c l s = Some (Continue l' s') \<and> keeps_time e s0 M s' \<and>
             slot s + lo \<le> slot s' \<and> slot s' \<le> slot s + hi"
  shows "quiet_stmt e s0 M c lo hi"
  using assms by (simp add: quiet_stmt_def)

lemma quiet_stmtD:
  assumes "quiet_stmt e s0 M c lo hi" and "keeps_time e s0 M s" and "slot s - slot s0 + hi \<le> M"
  obtains l' s' where "c l s = Some (Continue l' s')" "keeps_time e s0 M s'"
    "slot s + lo \<le> slot s'" "slot s' \<le> slot s + hi"
  using assms unfolding quiet_stmt_def by blast

lemma quiet_weaken:
  assumes "quiet_stmt e s0 M c lo hi" and "lo' \<le> lo" and "hi \<le> hi'"
  shows "quiet_stmt e s0 M c lo' hi'"
proof (rule quiet_stmtI)
  fix l s
  assume k: "keeps_time e s0 M s" and h: "slot s - slot s0 + hi' \<le> M"
  then have "slot s - slot s0 + hi \<le> M" using assms(3) by simp
  from quiet_stmtD [OF assms(1) k this, of l]
  obtain l' s' where "c l s = Some (Continue l' s')" "keeps_time e s0 M s'"
    "slot s + lo \<le> slot s'" "slot s' \<le> slot s + hi" by blast
  then show "\<exists>l' s'. c l s = Some (Continue l' s') \<and> keeps_time e s0 M s' \<and>
             slot s + lo' \<le> slot s' \<and> slot s' \<le> slot s + hi'"
    using assms(2,3) by auto
qed

lemma quiet_poll:
  assumes "released e"
  shows "quiet_stmt e s0 M (poll e) 1 1"
proof (rule quiet_stmtI)
  fix l :: 'a and s
  assume k: "keeps_time e s0 M s" and h: "slot s - slot s0 + 1 \<le> M"
  have "\<not> button e (slot s) < 1000" using assms by (simp add: released_def)
  then have c: "check_button_input e s = Val 0 ((slot_pass e s)\<lparr>trace := Checked 0 # trace s\<rparr>)"
    by (rule released)
  have "keeps_time e s0 M (slot_pass e s)" using k h by (intro keeps_time_slot) simp_all
  then have "keeps_time e s0 M ((slot_pass e s)\<lparr>trace := Checked 0 # trace s\<rparr>)"
    by (rule keeps_time_frame) simp_all
  then show "\<exists>l' s'. poll e l s = Some (Continue l' s') \<and> keeps_time e s0 M s' \<and>
             slot s + 1 \<le> slot s' \<and> slot s' \<le> slot s + 1"
    by (simp add: poll_def c)
qed

lemma quiet_still:
  assumes "\<And>l s. \<exists>l' s'. c l s = Some (Continue l' s') \<and> millis s' = millis s \<and>
     timer_interrupt_ticks s' = timer_interrupt_ticks s \<and> slot s' = slot s"
  shows "quiet_stmt e s0 M c 0 0"
proof (rule quiet_stmtI)
  fix l s
  assume k: "keeps_time e s0 M s"
  from assms [of l s] obtain l' s' where c: "c l s = Some (Continue l' s')"
    and f: "millis s' = millis s" "timer_interrupt_ticks s' = timer_interrupt_ticks s"
      "slot s' = slot s" by blast
  have "keeps_time e s0 M s'" using k f by (rule keeps_time_frame)
  then show "\<exists>l' s'. c l s = Some (Continue l' s') \<and> keeps_time e s0 M s' \<and>
             slot s + 0 \<le> slot s' \<and> slot s' \<le> slot s + 0"
    using c f by simp
qed

lemma quiet_wr:
  assumes "\<And>s. millis (f s) = millis s \<and>
     timer_interrupt_ticks (f s) = timer_interrupt_ticks s \<and> slot (f s) = slot s"
  shows "quiet_stmt e s0 M (wr f) 0 0"
  by (rule quiet_still) (simp add: wr_def assms)

lemma quiet_pause: "quiet_stmt e s0 M (pause e n) n n"
proof (rule quiet_stmtI)
  fix l :: 'a and s
  assume k: "keeps_time e s0 M s" and h: "slot s - slot s0 + n \<le> M"
  let ?s1 = "s\<lparr>trace := Shown (OCR0A s) (OCR0B s) (OCR1B s) (OCR1A s) n # trace s\<rparr>"
  have "keeps_time e s0 M ?s1" using k by (rule keeps_time_frame) simp_all
  then have "keeps_time e s0 M ((slot_pass e ^^ n) ?s1)"
    using h by (intro keeps_time_slots) simp_all
  then show "\<exists>l' s'. pause e n l s = Some (Continue l' s') \<and> keeps_time e s0 M s' \<and>
             slot s + n \<le> slot s' \<and> slot s' \<le> slot s + n"
    by (simp add: pause_def wr_def delay_ms_def)
qed

lemma quiet_run_Nil: "quiet_stmt e s0 M (run []) 0 0"
  by (rule quiet_still) (simp add: run.simps)

lemma quiet_run_Cons:
  assumes "quiet_stmt e s0 M c lo1 hi1" and "quiet_stmt e s0 M (run cs) lo2 hi2"
  shows "quiet_stmt e s0 M (run (c # cs)) (lo1 + lo2) (hi1 + hi2)"
proof (rule quiet_stmtI)
  fix l s
  assume k: "keeps_time e s0 M s" and h: "slot s - slot s0 + (hi1 + hi2) \<le> M"
  then have h1: "slot s - slot s0 + hi1 \<le> M" by simp
  from quiet_stmtD [OF assms(1) k h1, of l]
  obtain l1 s1 where c1: "c l s = Some (Continue l1 s1)" and k1: "keeps_time e s0 M s1"
    and b1: "slot s + lo1 \<le> slot s1" "slot s1 \<le> slot s + hi1" by blast
  have h2: "slot s1 - slot s0 + hi2 \<le> M" using h b1 by simp
  from quiet_stmtD [OF assms(2) k1 h2, of l1]
  obtain l2 s2 where c2: "run cs l1 s1 = Some (Continue l2 s2)" and k2: "keeps_time e s0 M s2"
    and b2: "slot s1 + lo2 \<le> slot s2" "slot s2 \<le> slot s1 + hi2" by blast
  show "\<exists>l' s'. run (c # cs) l s = Some (Continue l' s') \<and> keeps_time e s0 M s' \<and>
             slot s + (lo1 + lo2) \<le> slot s' \<and> slot s' \<le> slot s + (hi1 + hi2)"
    using c1 c2 k2 b1 b2 by (simp add: run.simps)
qed

lemma quiet_times:
  assumes "quiet_stmt e s0 M c lo hi"
  shows "quiet_stmt e s0 M (times n c) (n * lo) (n * hi)"
proof (induction n)
  case 0
  show ?case unfolding times_def replicate.simps mult_0 by (rule quiet_run_Nil)
next
  case (Suc n)
  then have "quiet_stmt e s0 M (run (c # replicate n c)) (lo + n * lo) (hi + n * hi)"
    unfolding times_def by (intro quiet_run_Cons assms)
  then show ?case unfolding times_def replicate.simps mult_Suc .
qed

lemma quiet_for_each:
  assumes "\<And>x. x \<in> set xs \<Longrightarrow> quiet_stmt e s0 M (f x) lo hi"
  shows "quiet_stmt e s0 M (for_each xs f) (length xs * lo) (length xs * hi)"
  using assms
proof (induction xs)
  case Nil
  show ?case unfolding for_each_def list.map list.size mult_0 by (rule quiet_run_Nil)
next
  case (Cons x xs)
  then have "quiet_stmt e s0 M (run (f x # map f xs)) (lo + length xs * lo) (hi + length xs * hi)"
    unfolding for_each_def by (intro quiet_run_Cons) simp_all
  then show ?case unfolding for_each_def list.map list.size by simp
qed

lemma keeps_time_before:
  assumes "keeps_time e s0 M s"
  shows "millis s < dl \<longleftrightarrow> clock s < 5 * unat dl"
proof -
  have "timer_interrupt_ticks s \<le> 4" using assms by (simp add: keeps_time_def ticks_ok_def)
  then have "unat (timer_interrupt_ticks s) \<le> 4" by (simp add: word_le_nat_alt)
  then show ?thesis by (auto simp: clock_def word_less_nat_alt)
qed

lemma keeps_time_poll:
  assumes "released e" and "keeps_time e s0 M s" and "slot s - slot s0 < M"
  obtains s1 where "check_button_input e s = Val 0 s1" "keeps_time e s0 M s1"
    "slot s1 = Suc (slot s)" "clock s1 = clock s + ovf e (slot s)"
proof -
  let ?n = "slot s - slot s0"
  have "\<not> button e (slot s) < 1000" using assms(1) by (simp add: released_def)
  then have c: "check_button_input e s = Val 0 ((slot_pass e s)\<lparr>trace := Checked 0 # trace s\<rparr>)"
    by (rule released)
  have k1: "keeps_time e s0 M (slot_pass e s)" using assms(2,3) by (rule keeps_time_slot)
  then have k2: "keeps_time e s0 M ((slot_pass e s)\<lparr>trace := Checked 0 # trace s\<rparr>)"
    by (rule keeps_time_frame) simp_all
  have "slot s0 \<le> slot s" using assms(2) by (simp add: keeps_time_def)
  then have "Suc (slot s) - slot s0 = Suc ?n" by simp
  then have "clock (slot_pass e s) = clock s + ovf e (slot s)"
    using k1 assms(2) by (simp add: keeps_time_def served_Suc)
  then have "clock ((slot_pass e s)\<lparr>trace := Checked 0 # trace s\<rparr>) = clock s + ovf e (slot s)"
    by (simp add: clock_def)
  with c k2 show ?thesis by (intro that) simp_all
qed

lemma wait_loop_quiet:
  assumes "released e" and "ticking e"
  shows "keeps_time e s0 M s \<Longrightarrow> slot s - slot s0 + (5 * unat deadline - clock s) \<le> M \<Longrightarrow>
         \<exists>s'. delay_millis_check_button_loop e deadline bp s = Some (Val bp s') \<and>
              keeps_time e s0 M s' \<and> slot s \<le> slot s' \<and>
              slot s' \<le> slot s + (5 * unat deadline - clock s) \<and> deadline \<le> millis s'"
proof (induction "5 * unat deadline - clock s" arbitrary: s rule: less_induct)
  case less
  show ?case
  proof (cases "millis s < deadline")
    case False
    then have d: "deadline \<le> millis s" by (simp add: not_less)
    have "delay_millis_check_button_loop e deadline bp s = Some (Val bp s)"
      using False by (subst delay_millis_check_button_loop.simps) simp
    then show ?thesis using d less.prems(1) by auto
  next
    case True
    then have c: "clock s < 5 * unat deadline"
      using keeps_time_before [OF less.prems(1)] by simp
    then have "slot s - slot s0 < M" using less.prems(2) by simp
    from keeps_time_poll [OF assms(1) less.prems(1) this]
    obtain s1 where p: "check_button_input e s = Val 0 s1" and k1: "keeps_time e s0 M s1"
      and sl: "slot s1 = Suc (slot s)" and cl: "clock s1 = clock s + ovf e (slot s)" by blast
    have "1 \<le> ovf e (slot s)" using assms(2) by (simp add: ticking_def)
    then have adv: "clock s < clock s1" using cl by simp
    then have m: "5 * unat deadline - clock s1 < 5 * unat deadline - clock s" using c by simp
    have "slot s0 \<le> slot s" using less.prems(1) by (simp add: keeps_time_def)
    then have h: "slot s1 - slot s0 + (5 * unat deadline - clock s1) \<le> M"
      using less.prems(2) sl m by simp
    from less.hyps [OF m k1 h]
    obtain s' where r: "delay_millis_check_button_loop e deadline bp s1 = Some (Val bp s')"
      and k': "keeps_time e s0 M s'" and b: "slot s1 \<le> slot s'"
        "slot s' \<le> slot s1 + (5 * unat deadline - clock s1)" and d: "deadline \<le> millis s'"
      by blast
    have "delay_millis_check_button_loop e deadline bp s = Some (Val bp s')"
      using True p r by (subst delay_millis_check_button_loop.simps) simp
    then show ?thesis using k' b d sl m by auto
  qed
qed

lemma keeps_time_room:
  assumes "ticking e" and "keeps_time e s0 M s" and "slot s - slot s0 + n \<le> M"
  shows "clock s + n < 5 * 2 ^ 64"
proof -
  let ?j = "slot s - slot s0"
  have k: "clock s = clock s0 + served e (slot s0) ?j"
    "clock s0 + served e (slot s0) M < 5 * 2 ^ 64"
    using assms(2) by (simp_all add: keeps_time_def)
  have "served e (slot s0) (?j + n) \<le> served e (slot s0) M" using assms(3) by (rule served_mono)
  moreover have "n \<le> served e (slot s0 + ?j) n" using assms(1) by (rule served_ticking)
  ultimately show ?thesis using k by (simp add: served_add)
qed

lemma quiet_wait_poll:
  assumes "released e" and "ticking e" and "0 \<le> d"
  shows "quiet_stmt e s0 M (wait_poll e d) 0 (5 * nat d)"
proof (rule quiet_stmtI)
  fix l :: 'a and s
  assume k: "keeps_time e s0 M s" and h: "slot s - slot s0 + 5 * nat d \<le> M"
  have "clock s + 5 * nat d < 5 * 2 ^ 64" using assms(2) k h by (rule keeps_time_room)
  then have "unat (millis s) + nat d < 2 ^ 64" by (simp add: clock_def)
  then have u: "unat (millis s + of_int d) = unat (millis s) + nat d"
    using assms(3) by (intro deadline_unat) simp_all
  then have le: "5 * unat (millis s + of_int d) - clock s \<le> 5 * nat d"
    by (simp add: clock_def)
  then have "slot s - slot s0 + (5 * unat (millis s + of_int d) - clock s) \<le> M"
    using h by simp
  from wait_loop_quiet [OF assms(1,2) k this, of 0]
  obtain s' where "delay_millis_check_button_loop e (millis s + of_int d) 0 s = Some (Val 0 s')"
    "keeps_time e s0 M s'" "slot s \<le> slot s'"
    "slot s' \<le> slot s + (5 * unat (millis s + of_int d) - clock s)" by blast
  then show "\<exists>l' s'. wait_poll e d l s = Some (Continue l' s') \<and> keeps_time e s0 M s' \<and>
             slot s + 0 \<le> slot s' \<and> slot s' \<le> slot s + 5 * nat d"
    using le by (auto simp: wait_poll_def delay_millis_check_button_def)
qed

lemma keeps_time_advance:
  assumes "ticking e" and "keeps_time e s0 M s" and "keeps_time e s0 M s'"
    and "slot s \<le> slot s'"
  shows "clock s + (slot s' - slot s) \<le> clock s'"
proof -
  let ?j = "slot s - slot s0" and ?n = "slot s' - slot s"
  have a: "slot s0 \<le> slot s" "clock s = clock s0 + served e (slot s0) ?j"
    using assms(2) by (simp_all add: keeps_time_def)
  have b: "clock s' = clock s0 + served e (slot s0) (slot s' - slot s0)"
    using assms(3) by (simp add: keeps_time_def)
  have "slot s' - slot s0 = ?j + ?n" using a(1) assms(4) by simp
  then have "served e (slot s0) (slot s' - slot s0) =
               served e (slot s0) ?j + served e (slot s0 + ?j) ?n"
    by (simp only: served_add)
  then have "clock s' = clock s + served e (slot s0 + ?j) ?n"
    using a(2) b by simp
  moreover have "?n \<le> served e (slot s0 + ?j) ?n" using assms(1) by (rule served_ticking)
  ultimately show ?thesis by simp
qed

lemma seq_while_times_out:
  assumes q: "quiet_stmt e s0 M body lo hi" and lo: "1 \<le> lo" and tk: "ticking e"
    and t: "0 \<le> timeout" and dl: "unat start + nat timeout < 2 ^ 64"
  shows "keeps_time e s0 M s \<Longrightarrow>
         (millis s < start + of_int timeout \<longrightarrow>
            slot s - slot s0 + (5 * (unat start + nat timeout) - clock s) + hi \<le> M) \<Longrightarrow>
         \<exists>s'. seq_while body timeout start l s = Some (Val 0 s') \<and> keeps_time e s0 M s' \<and>
              start + of_int timeout \<le> millis s' \<and>
              (s' = s \<or> (\<exists>s1. keeps_time e s0 M s1 \<and> millis s1 < start + of_int timeout \<and>
                               slot s \<le> slot s1 \<and> slot s' \<le> slot s1 + hi))"
proof (induction "5 * (unat start + nat timeout) - clock s" arbitrary: s l rule: less_induct)
  case less
  let ?D = "start + of_int timeout"
  have uD: "unat ?D = unat start + nat timeout" using t dl by (rule deadline_unat)
  show ?case
  proof (cases "millis s < ?D")
    case False
    then have d: "?D \<le> millis s" by (simp add: not_less)
    have "seq_while body timeout start l s = Some (Val 0 s)"
      using False t by (subst seq_while.simps) simp
    then show ?thesis using d less.prems(1) by auto
  next
    case True
    then have c: "clock s < 5 * (unat start + nat timeout)"
      using keeps_time_before [OF less.prems(1), of ?D] uD by simp
    have h: "slot s - slot s0 + (5 * (unat start + nat timeout) - clock s) + hi \<le> M"
      using True less.prems(2) by simp
    then have "slot s - slot s0 + hi \<le> M" by simp
    from quiet_stmtD [OF q less.prems(1) this, of l]
    obtain l1 s1 where b: "body l s = Some (Continue l1 s1)" and k1: "keeps_time e s0 M s1"
      and sl: "slot s + lo \<le> slot s1" "slot s1 \<le> slot s + hi" by blast
    have le: "slot s \<le> slot s1" using sl by simp
    have adv: "clock s + (slot s1 - slot s) \<le> clock s1"
      using tk less.prems(1) k1 le by (rule keeps_time_advance)
    then have m: "5 * (unat start + nat timeout) - clock s1
                    < 5 * (unat start + nat timeout) - clock s"
      using c sl lo by simp
    have s0s: "slot s0 \<le> slot s" using less.prems(1) by (simp add: keeps_time_def)
    have h1: "millis s1 < ?D \<longrightarrow>
          slot s1 - slot s0 + (5 * (unat start + nat timeout) - clock s1) + hi \<le> M"
    proof
      assume "millis s1 < ?D"
      then have "clock s1 < 5 * (unat start + nat timeout)"
        using keeps_time_before [OF k1, of ?D] uD by simp
      then show "slot s1 - slot s0 + (5 * (unat start + nat timeout) - clock s1) + hi \<le> M"
        using h adv le s0s by simp
    qed
    from less.hyps [OF m k1 h1, of l1]
    obtain s' where r: "seq_while body timeout start l1 s1 = Some (Val 0 s')"
      and k': "keeps_time e s0 M s'" and d: "?D \<le> millis s'"
      and late: "s' = s1 \<or> (\<exists>s2. keeps_time e s0 M s2 \<and> millis s2 < ?D \<and>
                               slot s1 \<le> slot s2 \<and> slot s' \<le> slot s2 + hi)" by blast
    have "seq_while body timeout start l s = Some (Val 0 s')"
      using True b r by (subst seq_while.simps) simp
    moreover have "\<exists>s2. keeps_time e s0 M s2 \<and> millis s2 < ?D \<and>
                               slot s \<le> slot s2 \<and> slot s' \<le> slot s2 + hi"
    proof (cases "s' = s1")
      case True
      then show ?thesis using less.prems(1) \<open>millis s < ?D\<close> sl by auto
    next
      case False
      with late obtain s2 where "keeps_time e s0 M s2" "millis s2 < ?D"
        "slot s1 \<le> slot s2" "slot s' \<le> slot s2 + hi" by blast
      then show ?thesis using le by (intro exI [of _ s2]) simp
    qed
    ultimately show ?thesis using k' d by blast
  qed
qed

lemma ocr_write_time [simp]:
  "millis (ocr_write k v s) = millis s"
  "timer_interrupt_ticks (ocr_write k v s) = timer_interrupt_ticks s"
  "slot (ocr_write k v s) = slot s" "trace (ocr_write k v s) = trace s"
  by (simp_all add: ocr_write_def)

lemma keeps_time_delay:
  assumes "keeps_time e s0 M s" and "slot s - slot s0 + n \<le> M"
  shows "keeps_time e s0 M (delay_ms e n s)"
proof -
  let ?s1 = "s\<lparr>trace := Shown (OCR0A s) (OCR0B s) (OCR1B s) (OCR1A s) n # trace s\<rparr>"
  have "keeps_time e s0 M ?s1" using assms(1) by (rule keeps_time_frame) simp_all
  then have "keeps_time e s0 M ((slot_pass e ^^ n) ?s1)"
    using assms(2) by (intro keeps_time_slots) simp_all
  then show ?thesis by (simp add: delay_ms_def)
qed

lemma poll_released:
  assumes "released e" and "keeps_time e s0 M s" and "slot s - slot s0 < M"
  obtains s1 where "poll e l s = Some (Continue l s1)" "keeps_time e s0 M s1"
    "slot s1 = Suc (slot s)"
proof -
  from keeps_time_poll [OF assms]
  obtain s1 where "check_button_input e s = Val 0 s1" "keeps_time e s0 M s1"
    "slot s1 = Suc (slot s)" by blast
  then show ?thesis by (intro that [of s1]) (simp_all add: poll_def)
qed

lemma fade_in_released:
  assumes "released e"
  shows "keeps_time e s0 M s \<Longrightarrow> slot s - slot s0 + (255 - unat (l k)) * (d + 1) \<le> M \<Longrightarrow>
         \<exists>s'. fade_in e k d l s = Some (Continue (l(k := 255)) s') \<and> keeps_time e s0 M s' \<and>
              slot s' = slot s + (255 - unat (l k)) * (d + 1)"
proof (induction "255 - unat (l k)" arbitrary: l s)
  case 0
  have "unat (l k) < 2 ^ LENGTH(8)" by (rule unsigned_less)
  with 0 have "unat (l k) = unat (255 :: u8)" by simp
  then have e: "l k = 255" by (simp only: word_unat_eq_iff)
  then have "l(k := 255) = l" by auto
  then show ?case using 0 e by (subst fade_in.simps) simp
next
  case (Suc n)
  from Suc(2) have lt: "unat (l k) < 255" by simp
  then have w: "l k < 255" by (simp add: word_less_nat_alt)
  have u: "unat (l k + 1) = unat (l k) + 1" using lt by (simp add: unat_word_ariths)
  have n: "255 - unat (l k) = Suc n" using Suc(2) by simp
  have s0s: "slot s0 \<le> slot s" using Suc.prems(1) by (simp add: keeps_time_def)
  have "slot s - slot s0 < M" using Suc.prems(2) n by simp
  from poll_released [OF assms Suc.prems(1) this, of l]
  obtain s1 where p: "poll e l s = Some (Continue l s1)" and k1: "keeps_time e s0 M s1"
    and sl1: "slot s1 = Suc (slot s)" by blast
  let ?s2 = "delay_ms e d (ocr_write k (l k + 1) s1)"
  let ?l2 = "l(k := l k + 1)"
  have "keeps_time e s0 M (ocr_write k (l k + 1) s1)"
    using k1 by (rule keeps_time_frame) simp_all
  moreover have "slot (ocr_write k (l k + 1) s1) - slot s0 + d \<le> M"
    using Suc.prems(2) n sl1 s0s by simp
  ultimately have k2: "keeps_time e s0 M ?s2" by (rule keeps_time_delay)
  have sl2: "slot ?s2 = slot s + (d + 1)" using sl1 by simp
  have m: "n = 255 - unat (?l2 k)" using n u by simp
  have h2: "slot ?s2 - slot s0 + (255 - unat (?l2 k)) * (d + 1) \<le> M"
    using Suc.prems(2) n sl2 s0s m [symmetric] by simp
  from Suc(1) [of ?l2 ?s2, OF m k2 h2]
  obtain s' where r: "fade_in e k d ?l2 ?s2 = Some (Continue (?l2(k := 255)) s')"
    and k': "keeps_time e s0 M s'"
    and sl': "slot s' = slot ?s2 + (255 - unat (?l2 k)) * (d + 1)" by blast
  have "fade_in e k d l s = Some (Continue (l(k := 255)) s')"
    using w p r by (subst fade_in.simps) simp
  moreover have "slot s' = slot s + (255 - unat (l k)) * (d + 1)"
    using sl' sl2 m [symmetric] n by simp
  ultimately show ?case using k' by blast
qed

lemma fade_out_released:
  assumes "released e"
  shows "keeps_time e s0 M s \<Longrightarrow> slot s - slot s0 + unat (l k) * (d + 1) \<le> M \<Longrightarrow>
         \<exists>s'. fade_out e k d l s = Some (Continue (l(k := 0)) s') \<and> keeps_time e s0 M s' \<and>
              slot s' = slot s + unat (l k) * (d + 1)"
proof (induction "unat (l k)" arbitrary: l s)
  case 0
  then have e: "l k = 0" by (simp add: unat_eq_zero)
  then have "l(k := 0) = l" by auto
  then show ?case using 0 e by (subst fade_out.simps) simp
next
  case (Suc n)
  from Suc(2) have gt: "0 < unat (l k)" by simp
  then have w: "0 < l k" by (simp add: word_less_nat_alt)
  have "1 \<le> l k" using gt by (simp add: word_le_nat_alt)
  then have "unat (l k - 1) = unat (l k) - unat (1 :: u8)" by (rule unat_sub)
  then have u: "unat (l k - 1) = n" using Suc(2) by simp
  have n: "unat (l k) = Suc n" using Suc(2) by simp
  have s0s: "slot s0 \<le> slot s" using Suc.prems(1) by (simp add: keeps_time_def)
  have "slot s - slot s0 < M" using Suc.prems(2) n by simp
  from poll_released [OF assms Suc.prems(1) this, of l]
  obtain s1 where p: "poll e l s = Some (Continue l s1)" and k1: "keeps_time e s0 M s1"
    and sl1: "slot s1 = Suc (slot s)" by blast
  let ?s2 = "delay_ms e d (ocr_write k (l k - 1) s1)"
  let ?l2 = "l(k := l k - 1)"
  have "keeps_time e s0 M (ocr_write k (l k - 1) s1)"
    using k1 by (rule keeps_time_frame) simp_all
  moreover have "slot (ocr_write k (l k - 1) s1) - slot s0 + d \<le> M"
    using Suc.prems(2) n sl1 s0s by simp
  ultimately have k2: "keeps_time e s0 M ?s2" by (rule keeps_time_delay)
  have sl2: "slot ?s2 = slot s + (d + 1)" using sl1 by simp
  have m: "n = unat (?l2 k)" using u by simp
  have h2: "slot ?s2 - slot s0 + unat (?l2 k) * (d + 1) \<le> M"
    using Suc.prems(2) n sl2 s0s m [symmetric] by simp
  from Suc(1) [of ?l2 ?s2, OF m k2 h2]
  obtain s' where r: "fade_out e k d ?l2 ?s2 = Some (Continue (?l2(k := 0)) s')"
    and k': "keeps_time e s0 M s'"
    and sl': "slot s' = slot ?s2 + unat (?l2 k) * (d + 1)" by blast
  have "fade_out e k d l s = Some (Continue (l(k := 0)) s')"
    using w p r by (subst fade_out.simps) simp
  moreover have "slot s' = slot s + unat (l k) * (d + 1)"
    using sl' sl2 m [symmetric] n by simp
  ultimately show ?case using k' by blast
qed

lemma quiet_set_all: "quiet_stmt e s0 M (wr (set_all v)) 0 0"
  by (rule quiet_wr) simp

lemma quiet_ocr_write: "quiet_stmt e s0 M (wr (ocr_write k v)) 0 0"
  by (rule quiet_wr) simp

lemma quiet_inc_dec:
  "quiet_stmt e s0 M (wr inc_all) 0 0" "quiet_stmt e s0 M (wr dec_all) 0 0"
  "quiet_stmt e s0 M (wr inc2_all) 0 0"
  by (rule quiet_wr, simp add: inc_all_def dec_all_def inc2_all_def)+

lemma quiet_wait_poll_numeral:
  assumes "released e" and "ticking e"
  shows "quiet_stmt e s0 M (wait_poll e (numeral n)) 0 (5 * numeral n)"
  using quiet_wait_poll [OF assms, of "numeral n" s0 M] by simp

lemmas quiet_intros =
  quiet_run_Cons quiet_run_Nil quiet_times quiet_for_each quiet_poll quiet_pause
  quiet_wait_poll_numeral quiet_set_all quiet_ocr_write quiet_inc_dec

lemma seq8_body_quiet:
  assumes "released e"
  shows "quiet_stmt e s0 M (seq8_body e) 10380 10380"
  apply (rule quiet_weaken)
    apply (unfold seq8_body_def)
    apply (rule quiet_intros assms)+
   apply simp_all
  done

lemma seq8_intro_quiet:
  assumes "released e"
  shows "quiet_stmt e s0 M (seq8_intro e) 180 180"
  apply (rule quiet_weaken)
    apply (unfold seq8_intro_def)
    apply (rule quiet_intros assms)+
   apply simp_all
  done

lemma seq9_body_quiet:
  assumes "released e"
  shows "quiet_stmt e s0 M (seq9_body e) 8416 8416"
  apply (rule quiet_weaken)
    apply (unfold seq9_body_def)
    apply (rule quiet_intros assms)+
   apply simp_all
  done

lemma seq3_body_quiet:
  assumes "released e" and "ticking e"
  shows "quiet_stmt e s0 M (seq3_body e) 514 11014"
  apply (rule quiet_weaken)
    apply (unfold seq3_body_def flash_def append.simps)
    apply (rule quiet_intros assms)+
             apply simp_all
  done

lemma seq4_body_quiet:
  assumes "released e" and "ticking e"
  shows "quiet_stmt e s0 M (seq4_body e) 1022 1522"
  apply (rule quiet_weaken)
    apply (unfold seq4_body_def)
    apply (rule quiet_intros assms)+
             apply simp_all
  done

lemma seq5_body_quiet:
  assumes "released e" and "ticking e"
  shows "quiet_stmt e s0 M (seq5_body e) 256 406"
  apply (rule quiet_weaken)
    apply (unfold seq5_body_def)
    apply (rule quiet_intros assms)+
             apply simp_all
  done

lemma seq6_body_quiet:
  assumes "released e" and "ticking e"
  shows "quiet_stmt e s0 M (seq6_body e) 504 1004"
  apply (rule quiet_weaken)
    apply (unfold seq6_body_def rise_def hand_off_def fall_def)
    apply (rule quiet_intros assms)+
             apply simp_all
  done

lemma seq7_body_quiet:
  assumes "released e" and "ticking e"
  shows "quiet_stmt e s0 M (seq7_body e) 1008 2008"
  apply (rule quiet_weaken)
    apply (unfold seq7_body_def rise_def hand_off_def fall_def)
    apply (rule quiet_intros assms)+
             apply simp_all
  done

lemma quiet_dec_leds: "quiet_stmt e s0 M dec_leds 0 0"
  by (rule quiet_still) (simp add: dec_leds_def Let_def)

lemma quiet_show_walk: "quiet_stmt e s0 M show_walk 0 0"
  by (rule quiet_still) (simp add: show_walk_def)

lemma quiet_seq10_update: "quiet_stmt e s0 M (seq10_update i) 0 0"
  by (rule quiet_still) (simp add: seq10_update_def Let_def)

lemma quiet_seq11_update: "quiet_stmt e s0 M (seq11_update i) 0 0"
  by (rule quiet_still) (simp add: seq11_update_def Let_def)

lemma quiet_choose_led: "quiet_stmt e s0 M (choose_led e n d) 0 0"
  by (rule quiet_still) (simp add: choose_led_def rand_def Let_def)

lemma quiet_show_level: "quiet_stmt e s0 M show_level 0 0"
  by (rule quiet_still) (simp add: show_level_def Let_def)

lemma sample_mic_time:
  "millis (sample_mic e s) = millis (slot_pass e s)"
  "timer_interrupt_ticks (sample_mic e s) = timer_interrupt_ticks (slot_pass e s)"
  "slot (sample_mic e s) = Suc (slot s)" "trace (sample_mic e s) = trace s"
  by (simp_all add: sample_mic_def adc_read_def Let_def)

lemma quiet_sample_mic: "quiet_stmt e s0 M (wr (sample_mic e)) 1 1"
proof (rule quiet_stmtI)
  fix l :: 'a and s
  assume k: "keeps_time e s0 M s" and h: "slot s - slot s0 + 1 \<le> M"
  have "keeps_time e s0 M (slot_pass e s)" using k h by (intro keeps_time_slot) simp_all
  then have "keeps_time e s0 M (sample_mic e s)"
    by (rule keeps_time_frame) (simp_all add: sample_mic_time)
  then show "\<exists>l' s'. wr (sample_mic e) l s = Some (Continue l' s') \<and> keeps_time e s0 M s' \<and>
             slot s + 1 \<le> slot s' \<and> slot s' \<le> slot s + 1"
    by (simp add: wr_def sample_mic_time)
qed

lemma seq10_body_quiet:
  assumes "released e"
  shows "quiet_stmt e s0 M (seq10_body e) 1 1"
  apply (rule quiet_weaken)
    apply (unfold seq10_body_def)
    apply (rule quiet_intros quiet_seq10_update quiet_show_walk quiet_choose_led assms)+
   apply simp_all
  done

lemma seq11_body_quiet:
  assumes "released e"
  shows "quiet_stmt e s0 M (seq11_body e) 1 1"
  apply (rule quiet_weaken)
    apply (unfold seq11_body_def)
    apply (rule quiet_intros quiet_seq11_update quiet_show_walk quiet_choose_led assms)+
   apply simp_all
  done

lemma seq12_body_quiet:
  assumes "released e"
  shows "quiet_stmt e s0 M (seq12_body e) 2 2"
  apply (rule quiet_weaken)
    apply (unfold seq12_body_def)
    apply (rule quiet_intros quiet_sample_mic quiet_show_level assms)+
   apply simp_all
  done

lemma u8_le_255: "unat (w :: u8) \<le> 255"
proof -
  have "unat w < 2 ^ LENGTH(8)" by (rule unsigned_less)
  then show ?thesis by simp
qed

lemma fade_in_step:
  assumes "released e" and "keeps_time e s0 M s" and "slot s - slot s0 + 255 * (d + 1) \<le> M"
  obtains s' where "fade_in e k d l s = Some (Continue (l(k := 255)) s')"
    "keeps_time e s0 M s'" "slot s' = slot s + (255 - unat (l k)) * (d + 1)"
    "slot s \<le> slot s'" "slot s' \<le> slot s + 255 * (d + 1)"
proof -
  have "(255 - unat (l k)) * (d + 1) \<le> 255 * (d + 1)" by (intro mult_le_mono1) simp
  then have "slot s - slot s0 + (255 - unat (l k)) * (d + 1) \<le> M" using assms(3) by simp
  from fade_in_released [where l = l and k = k and d = d, OF assms(1,2) this]
  obtain s' where r: "fade_in e k d l s = Some (Continue (l(k := 255)) s')"
    "keeps_time e s0 M s'" "slot s' = slot s + (255 - unat (l k)) * (d + 1)" by blast
  moreover have "(255 - unat (l k)) * (d + 1) \<le> 255 * (d + 1)" by (intro mult_le_mono1) simp
  ultimately show ?thesis by (intro that [of s']) simp_all
qed

lemma fade_out_step:
  assumes "released e" and "keeps_time e s0 M s" and "slot s - slot s0 + 255 * (d + 1) \<le> M"
  obtains s' where "fade_out e k d l s = Some (Continue (l(k := 0)) s')"
    "keeps_time e s0 M s'" "slot s' = slot s + unat (l k) * (d + 1)"
    "slot s \<le> slot s'" "slot s' \<le> slot s + 255 * (d + 1)"
proof -
  have le: "unat (l k) * (d + 1) \<le> 255 * (d + 1)" by (intro mult_le_mono1 u8_le_255)
  then have "slot s - slot s0 + unat (l k) * (d + 1) \<le> M" using assms(3) by simp
  from fade_out_released [where l = l and k = k and d = d, OF assms(1,2) this]
  obtain s' where r: "fade_out e k d l s = Some (Continue (l(k := 0)) s')"
    "keeps_time e s0 M s'" "slot s' = slot s + unat (l k) * (d + 1)" by blast
  then show ?thesis using le by (intro that [of s']) simp_all
qed

lemma seq1_body_quiet:
  assumes "released e"
  shows "quiet_stmt e s0 M (seq1_body e) 2040 4080"
proof (rule quiet_stmtI)
  fix l :: "nat \<Rightarrow> u8" and s
  assume k0: "keeps_time e s0 M s" and h: "slot s - slot s0 + 4080 \<le> M"
  have s0s: "slot s0 \<le> slot s" using k0 by (simp add: keeps_time_def)
  let ?l0 = "l"
  let ?l1 = "?l0(1 := 255)"
  let ?l2 = "?l1(2 := 255)"
  let ?l3 = "?l2(3 := 255)"
  let ?l4 = "?l3(4 := 255)"
  let ?l5 = "?l4(1 := 0)"
  let ?l6 = "?l5(2 := 0)"
  let ?l7 = "?l6(3 := 0)"
  let ?l8 = "?l7(4 := 0)"
  have h0: "slot s - slot s0 + 255 * (1 + 1) \<le> M" using h s0s  by simp
  obtain s1 where f1: "fade_in e 1 1 ?l0 s = Some (Continue ?l1 s1)"
    and k1: "keeps_time e s0 M s1"
    and x1: "slot s1 = slot s + (255 - unat (?l0 1)) * (1 + 1)"
    and y1: "slot s \<le> slot s1" "slot s1 \<le> slot s + 255 * (1 + 1)"
    by (rule fade_in_step [where k = 1 and l = "?l0" and d = 1, OF assms k0 h0])
  have t1: "slot s \<le> slot s1" "slot s1 \<le> slot s + 510" using y1 by simp_all
  have h1: "slot s1 - slot s0 + 255 * (1 + 1) \<le> M" using h s0s t1 by simp
  obtain s2 where f2: "fade_in e 2 1 ?l1 s1 = Some (Continue ?l2 s2)"
    and k2: "keeps_time e s0 M s2"
    and x2: "slot s2 = slot s1 + (255 - unat (?l1 2)) * (1 + 1)"
    and y2: "slot s1 \<le> slot s2" "slot s2 \<le> slot s1 + 255 * (1 + 1)"
    by (rule fade_in_step [where k = 2 and l = "?l1" and d = 1, OF assms k1 h1])
  have t2: "slot s1 \<le> slot s2" "slot s2 \<le> slot s1 + 510" using y2 by simp_all
  have h2: "slot s2 - slot s0 + 255 * (1 + 1) \<le> M" using h s0s t1 t2 by simp
  obtain s3 where f3: "fade_in e 3 1 ?l2 s2 = Some (Continue ?l3 s3)"
    and k3: "keeps_time e s0 M s3"
    and x3: "slot s3 = slot s2 + (255 - unat (?l2 3)) * (1 + 1)"
    and y3: "slot s2 \<le> slot s3" "slot s3 \<le> slot s2 + 255 * (1 + 1)"
    by (rule fade_in_step [where k = 3 and l = "?l2" and d = 1, OF assms k2 h2])
  have t3: "slot s2 \<le> slot s3" "slot s3 \<le> slot s2 + 510" using y3 by simp_all
  have h3: "slot s3 - slot s0 + 255 * (1 + 1) \<le> M" using h s0s t1 t2 t3 by simp
  obtain s4 where f4: "fade_in e 4 1 ?l3 s3 = Some (Continue ?l4 s4)"
    and k4: "keeps_time e s0 M s4"
    and x4: "slot s4 = slot s3 + (255 - unat (?l3 4)) * (1 + 1)"
    and y4: "slot s3 \<le> slot s4" "slot s4 \<le> slot s3 + 255 * (1 + 1)"
    by (rule fade_in_step [where k = 4 and l = "?l3" and d = 1, OF assms k3 h3])
  have t4: "slot s3 \<le> slot s4" "slot s4 \<le> slot s3 + 510" using y4 by simp_all
  have h4: "slot s4 - slot s0 + 255 * (1 + 1) \<le> M" using h s0s t1 t2 t3 t4 by simp
  obtain s5 where f5: "fade_out e 1 1 ?l4 s4 = Some (Continue ?l5 s5)"
    and k5: "keeps_time e s0 M s5"
    and x5: "slot s5 = slot s4 + unat (?l4 1) * (1 + 1)"
    and y5: "slot s4 \<le> slot s5" "slot s5 \<le> slot s4 + 255 * (1 + 1)"
    by (rule fade_out_step [where k = 1 and l = "?l4" and d = 1, OF assms k4 h4])
  have t5: "slot s5 = slot s4 + 510" using x5 by simp
  have h5: "slot s5 - slot s0 + 255 * (1 + 1) \<le> M" using h s0s t1 t2 t3 t4 t5 by simp
  obtain s6 where f6: "fade_out e 2 1 ?l5 s5 = Some (Continue ?l6 s6)"
    and k6: "keeps_time e s0 M s6"
    and x6: "slot s6 = slot s5 + unat (?l5 2) * (1 + 1)"
    and y6: "slot s5 \<le> slot s6" "slot s6 \<le> slot s5 + 255 * (1 + 1)"
    by (rule fade_out_step [where k = 2 and l = "?l5" and d = 1, OF assms k5 h5])
  have t6: "slot s6 = slot s5 + 510" using x6 by simp
  have h6: "slot s6 - slot s0 + 255 * (1 + 1) \<le> M" using h s0s t1 t2 t3 t4 t5 t6 by simp
  obtain s7 where f7: "fade_out e 3 1 ?l6 s6 = Some (Continue ?l7 s7)"
    and k7: "keeps_time e s0 M s7"
    and x7: "slot s7 = slot s6 + unat (?l6 3) * (1 + 1)"
    and y7: "slot s6 \<le> slot s7" "slot s7 \<le> slot s6 + 255 * (1 + 1)"
    by (rule fade_out_step [where k = 3 and l = "?l6" and d = 1, OF assms k6 h6])
  have t7: "slot s7 = slot s6 + 510" using x7 by simp
  have h7: "slot s7 - slot s0 + 255 * (1 + 1) \<le> M" using h s0s t1 t2 t3 t4 t5 t6 t7 by simp
  obtain s8 where f8: "fade_out e 4 1 ?l7 s7 = Some (Continue ?l8 s8)"
    and k8: "keeps_time e s0 M s8"
    and x8: "slot s8 = slot s7 + unat (?l7 4) * (1 + 1)"
    and y8: "slot s7 \<le> slot s8" "slot s8 \<le> slot s7 + 255 * (1 + 1)"
    by (rule fade_out_step [where k = 4 and l = "?l7" and d = 1, OF assms k7 h7])
  have t8: "slot s8 = slot s7 + 510" using x8 by simp
  have "seq1_body e l s = Some (Continue ?l8 s8)"
    by (simp only: seq1_body_def run.simps f1 f2 f3 f4 f5 f6 f7 f8 option.case flow.case)
  moreover have "slot s + 2040 \<le> slot s8" "slot s8 \<le> slot s + 4080"
    using t1 t2 t3 t4 t5 t6 t7 t8 by simp_all
  ultimately show "\<exists>l' s'. seq1_body e l s = Some (Continue l' s') \<and> keeps_time e s0 M s' \<and>
             slot s + 2040 \<le> slot s' \<and> slot s' \<le> slot s + 4080"
    using k8 by blast
qed

lemma seq2_body_quiet:
  assumes "released e"
  shows "quiet_stmt e s0 M (seq2_body e) 1275 4335"
proof (rule quiet_stmtI)
  fix l :: "nat \<Rightarrow> u8" and s
  assume k0: "keeps_time e s0 M s" and h: "slot s - slot s0 + 4335 \<le> M"
  have s0s: "slot s0 \<le> slot s" using k0 by (simp add: keeps_time_def)
  let ?l0 = "l"
  let ?l1 = "?l0(1 := 255)"
  let ?l2 = "?l1(2 := 255)"
  let ?l3 = "?l2(3 := 255)"
  let ?l4 = "?l3(4 := 255)"
  have h0: "slot s - slot s0 + 255 * (2 + 1) \<le> M" using h s0s  by simp
  obtain s1 where f1: "fade_in e 1 2 ?l0 s = Some (Continue ?l1 s1)"
    and k1: "keeps_time e s0 M s1"
    and x1: "slot s1 = slot s + (255 - unat (?l0 1)) * (2 + 1)"
    and y1: "slot s \<le> slot s1" "slot s1 \<le> slot s + 255 * (2 + 1)"
    by (rule fade_in_step [where k = 1 and l = "?l0" and d = 2, OF assms k0 h0])
  have t1: "slot s \<le> slot s1" "slot s1 \<le> slot s + 765" using y1 by simp_all
  have h1: "slot s1 - slot s0 + 255 * (2 + 1) \<le> M" using h s0s t1 by simp
  obtain s2 where f2: "fade_in e 2 2 ?l1 s1 = Some (Continue ?l2 s2)"
    and k2: "keeps_time e s0 M s2"
    and x2: "slot s2 = slot s1 + (255 - unat (?l1 2)) * (2 + 1)"
    and y2: "slot s1 \<le> slot s2" "slot s2 \<le> slot s1 + 255 * (2 + 1)"
    by (rule fade_in_step [where k = 2 and l = "?l1" and d = 2, OF assms k1 h1])
  have t2: "slot s1 \<le> slot s2" "slot s2 \<le> slot s1 + 765" using y2 by simp_all
  have h2: "slot s2 - slot s0 + 255 * (2 + 1) \<le> M" using h s0s t1 t2 by simp
  obtain s3 where f3: "fade_in e 3 2 ?l2 s2 = Some (Continue ?l3 s3)"
    and k3: "keeps_time e s0 M s3"
    and x3: "slot s3 = slot s2 + (255 - unat (?l2 3)) * (2 + 1)"
    and y3: "slot s2 \<le> slot s3" "slot s3 \<le> slot s2 + 255 * (2 + 1)"
    by (rule fade_in_step [where k = 3 and l = "?l2" and d = 2, OF assms k2 h2])
  have t3: "slot s2 \<le> slot s3" "slot s3 \<le> slot s2 + 765" using y3 by simp_all
  have h3: "slot s3 - slot s0 + 255 * (2 + 1) \<le> M" using h s0s t1 t2 t3 by simp
  obtain s4 where f4: "fade_in e 4 2 ?l3 s3 = Some (Continue ?l4 s4)"
    and k4: "keeps_time e s0 M s4"
    and x4: "slot s4 = slot s3 + (255 - unat (?l3 4)) * (2 + 1)"
    and y4: "slot s3 \<le> slot s4" "slot s4 \<le> slot s3 + 255 * (2 + 1)"
    by (rule fade_in_step [where k = 4 and l = "?l3" and d = 2, OF assms k3 h3])
  have t4: "slot s3 \<le> slot s4" "slot s4 \<le> slot s3 + 765" using y4 by simp_all
  let ?c = "times 255 (run [poll e, dec_leds, pause e 4])"
  have q: "quiet_stmt e s0 M ?c 1275 1275"
    apply (rule quiet_weaken)
      apply (rule quiet_intros quiet_dec_leds assms)+
     apply simp_all
    done
  have h4: "slot s4 - slot s0 + 1275 \<le> M" using h s0s t1 t2 t3 t4 by simp
  obtain l5 s5 where f5: "?c ?l4 s4 = Some (Continue l5 s5)"
    and k5: "keeps_time e s0 M s5"
    and t5: "slot s4 + 1275 \<le> slot s5" "slot s5 \<le> slot s4 + 1275"
    by (rule quiet_stmtD [OF q k4 h4, of ?l4])
  have "seq2_body e l s = Some (Continue l5 s5)"
    by (simp only: seq2_body_def run.simps f1 f2 f3 f4 f5 option.case flow.case)
  moreover have "slot s + 1275 \<le> slot s5" "slot s5 \<le> slot s + 4335"
    using t1 t2 t3 t4 t5 by simp_all
  ultimately show "\<exists>l' s'. seq2_body e l s = Some (Continue l' s') \<and> keeps_time e s0 M s' \<and>
             slot s + 1275 \<le> slot s' \<and> slot s' \<le> slot s + 4335"
    using k5 by blast
qed

lemma seq_while_released:
  assumes q: "quiet_stmt e s0 M body lo hi" and lo: "1 \<le> lo" and tk: "ticking e"
    and t: "0 \<le> t" and ks0: "keeps_time e s0 M s0" and ks: "keeps_time e s0 M s"
    and M: "M = 5 * nat t + hi"
  shows "\<exists>s'. seq_while body t (millis s0) l s = Some (Val 0 s') \<and>
              unat (millis s0) + nat t \<le> unat (millis s') \<and>
              (s' = s \<or> (\<exists>j. clock s0 + served e (slot s0) j < 5 * (unat (millis s0) + nat t) \<and>
                              slot s' \<le> slot s0 + j + hi))"
proof -
  let ?dl = "unat (millis s0) + nat t"
  let ?D = "millis s0 + of_int t"
  have "slot s0 - slot s0 + 5 * nat t \<le> M" using M by simp
  with tk ks0 have "clock s0 + 5 * nat t < 5 * 2 ^ 64" by (rule keeps_time_room)
  then have dl: "?dl < 2 ^ 64" by (simp add: clock_def)
  have uD: "unat ?D = ?dl" using t dl by (rule deadline_unat)
  have s0s: "slot s0 \<le> slot s" using ks by (simp add: keeps_time_def)
  have adv: "clock s0 + (slot s - slot s0) \<le> clock s"
    using tk ks0 ks s0s by (rule keeps_time_advance)
  have c0: "5 * ?dl - clock s0 \<le> 5 * nat t" by (simp add: clock_def)
  have h: "millis s < ?D \<longrightarrow> slot s - slot s0 + (5 * ?dl - clock s) + hi \<le> M"
  proof
    assume "millis s < ?D"
    then have "clock s < 5 * ?dl" using keeps_time_before [OF ks, of ?D] uD by simp
    then show "slot s - slot s0 + (5 * ?dl - clock s) + hi \<le> M"
      using adv c0 M by linarith
  qed
  from seq_while_times_out [OF q lo tk t dl ks h, of l]
  obtain s' where r: "seq_while body t (millis s0) l s = Some (Val 0 s')"
    and k': "keeps_time e s0 M s'" and d: "?D \<le> millis s'"
    and late: "s' = s \<or> (\<exists>s1. keeps_time e s0 M s1 \<and> millis s1 < ?D \<and>
                               slot s \<le> slot s1 \<and> slot s' \<le> slot s1 + hi)" by blast
  have d': "?dl \<le> unat (millis s')" using d uD by (simp add: word_le_nat_alt)
  have "s' = s \<or> (\<exists>j. clock s0 + served e (slot s0) j < 5 * ?dl \<and> slot s' \<le> slot s0 + j + hi)"
  proof (cases "s' = s")
    case True
    then show ?thesis by simp
  next
    case False
    with late obtain s1 where k1: "keeps_time e s0 M s1" and m1: "millis s1 < ?D"
      and sl: "slot s' \<le> slot s1 + hi" by blast
    have "clock s1 < 5 * ?dl" using keeps_time_before [OF k1, of ?D] uD m1 by simp
    moreover have "clock s1 = clock s0 + served e (slot s0) (slot s1 - slot s0)"
      "slot s0 \<le> slot s1" using k1 by (simp_all add: keeps_time_def)
    ultimately have "clock s0 + served e (slot s0) (slot s1 - slot s0) < 5 * ?dl \<and>
        slot s' \<le> slot s0 + (slot s1 - slot s0) + hi" using sl by simp
    then show ?thesis by blast
  qed
  with r d' show ?thesis by blast
qed

lemma seq_plain_times_out:
  assumes q: "\<And>s0 M. quiet_stmt e s0 M body lo hi" and lo: "1 \<le> lo" and tk: "ticking e"
    and t: "0 \<le> t" and ok: "ticks_ok s"
    and room: "clock s + served e (slot s) (5 * nat t + hi) < 5 * 2 ^ 64"
    and init: "millis s0 = millis s" "timer_interrupt_ticks s0 = timer_interrupt_ticks s"
      "slot s0 = slot s"
  shows "\<exists>s'. seq_while body t (millis s0) l s0 = Some (Val 0 s') \<and>
              unat (millis s) + nat t \<le> unat (millis s') \<and>
              (\<exists>j. (j = 0 \<or> clock s + served e (slot s) j < 5 * (unat (millis s) + nat t)) \<and>
                   slot s' \<le> slot s + j + hi)"
proof -
  let ?M = "5 * nat t + hi"
  have c: "clock s0 = clock s" "ticks_ok s0" using init ok by (simp_all add: clock_def ticks_ok_def)
  then have ks: "keeps_time e s0 ?M s0" using room init by (intro keeps_time_start) simp_all
  from seq_while_released [OF q lo tk t ks ks refl, of l]
  obtain s' where r: "seq_while body t (millis s0) l s0 = Some (Val 0 s')"
    and d: "unat (millis s0) + nat t \<le> unat (millis s')"
    and late: "s' = s0 \<or> (\<exists>j. clock s0 + served e (slot s0) j < 5 * (unat (millis s0) + nat t) \<and>
                              slot s' \<le> slot s0 + j + hi)" by blast
  have "\<exists>j. (j = 0 \<or> clock s + served e (slot s) j < 5 * (unat (millis s) + nat t)) \<and>
                   slot s' \<le> slot s + j + hi"
  proof (cases "s' = s0")
    case True
    then have "slot s' \<le> slot s + 0 + hi" using init by simp
    then show ?thesis by blast
  next
    case False
    with late obtain j where "clock s0 + served e (slot s0) j < 5 * (unat (millis s0) + nat t)"
      "slot s' \<le> slot s0 + j + hi" by blast
    then show ?thesis using init c by auto
  qed
  with r d init show ?thesis by auto
qed

lemma init_mic_buffer_time [simp]:
  "millis (init_mic_buffer s) = millis s"
  "timer_interrupt_ticks (init_mic_buffer s) = timer_interrupt_ticks s"
  "slot (init_mic_buffer s) = slot s" "trace (init_mic_buffer s) = trace s"
  by (simp_all add: init_mic_buffer_def)

lemma timed_out_plain:
  assumes q: "\<And>s0 M. quiet_stmt e s0 M body lo hi" and lo: "1 \<le> lo" and tk: "ticking e"
    and t: "0 \<le> t" and ok: "ticks_ok s"
    and room: "clock s + served e (slot s) (5 * nat t + hi) < 5 * 2 ^ 64"
    and init: "millis s0 = millis s" "timer_interrupt_ticks s0 = timer_interrupt_ticks s"
      "slot s0 = slot s"
  shows "timed_out e t s hi (seq_while body t (millis s0) l s0)"
  unfolding timed_out_def
  using seq_plain_times_out [OF q lo tk t ok room init, of l] by blast

lemma seq1_times_out:
  assumes rel: "released e" and tk: "ticking e" and t: "0 \<le> t" and ok: "ticks_ok s"
    and room: "clock s + served e (slot s) (5 * nat t + 4080) < 5 * 2 ^ 64"
  shows "timed_out e t s 4080 (seq1 e t s)"
  unfolding seq1_def Let_def
  by (rule timed_out_plain [OF seq1_body_quiet [OF rel] _ tk t ok room]) simp_all

lemma seq2_times_out:
  assumes rel: "released e" and tk: "ticking e" and t: "0 \<le> t" and ok: "ticks_ok s"
    and room: "clock s + served e (slot s) (5 * nat t + 4335) < 5 * 2 ^ 64"
  shows "timed_out e t s 4335 (seq2 e t s)"
  unfolding seq2_def Let_def
  by (rule timed_out_plain [OF seq2_body_quiet [OF rel] _ tk t ok room]) simp_all

lemma seq3_times_out:
  assumes rel: "released e" and tk: "ticking e" and t: "0 \<le> t" and ok: "ticks_ok s"
    and room: "clock s + served e (slot s) (5 * nat t + 11014) < 5 * 2 ^ 64"
  shows "timed_out e t s 11014 (seq3 e t s)"
  unfolding seq3_def Let_def
  by (rule timed_out_plain [OF seq3_body_quiet [OF rel tk] _ tk t ok room]) simp_all

lemma seq4_times_out:
  assumes rel: "released e" and tk: "ticking e" and t: "0 \<le> t" and ok: "ticks_ok s"
    and room: "clock s + served e (slot s) (5 * nat t + 1522) < 5 * 2 ^ 64"
  shows "timed_out e t s 1522 (seq4 e t s)"
  unfolding seq4_def Let_def
  by (rule timed_out_plain [OF seq4_body_quiet [OF rel tk] _ tk t ok room]) simp_all

lemma seq5_times_out:
  assumes rel: "released e" and tk: "ticking e" and t: "0 \<le> t" and ok: "ticks_ok s"
    and room: "clock s + served e (slot s) (5 * nat t + 406) < 5 * 2 ^ 64"
  shows "timed_out e t s 406 (seq5 e t s)"
  unfolding seq5_def Let_def
  by (rule timed_out_plain [OF seq5_body_quiet [OF rel tk] _ tk t ok room]) simp_all

lemma seq6_times_out:
  assumes rel: "released e" and tk: "ticking e" and t: "0 \<le> t" and ok: "ticks_ok s"
    and room: "clock s + served e (slot s) (5 * nat t + 1004) < 5 * 2 ^ 64"
  shows "timed_out e t s 1004 (seq6 e t s)"
  unfolding seq6_def Let_def
  by (rule timed_out_plain [OF seq6_body_quiet [OF rel tk] _ tk t ok room]) simp_all

lemma seq7_times_out:
  assumes rel: "released e" and tk: "ticking e" and t: "0 \<le> t" and ok: "ticks_ok s"
    and room: "clock s + served e (slot s) (5 * nat t + 2008) < 5 * 2 ^ 64"
  shows "timed_out e t s 2008 (seq7 e t s)"
  unfolding seq7_def Let_def
  by (rule timed_out_plain [OF seq7_body_quiet [OF rel tk] _ tk t ok room]) simp_all

lemma seq9_times_out:
  assumes rel: "released e" and tk: "ticking e" and t: "0 \<le> t" and ok: "ticks_ok s"
    and room: "clock s + served e (slot s) (5 * nat t + 8416) < 5 * 2 ^ 64"
  shows "timed_out e t s 8416 (seq9 e t s)"
  unfolding seq9_def Let_def
  by (rule timed_out_plain [OF seq9_body_quiet [OF rel] _ tk t ok room]) simp_all

lemma seq10_times_out:
  assumes rel: "released e" and tk: "ticking e" and t: "0 \<le> t" and ok: "ticks_ok s"
    and room: "clock s + served e (slot s) (5 * nat t + 1) < 5 * 2 ^ 64"
  shows "timed_out e t s 1 (seq10 e t s)"
  unfolding seq10_def Let_def
  by (rule timed_out_plain [OF seq10_body_quiet [OF rel] _ tk t ok room]) simp_all

lemma seq11_times_out:
  assumes rel: "released e" and tk: "ticking e" and t: "0 \<le> t" and ok: "ticks_ok s"
    and room: "clock s + served e (slot s) (5 * nat t + 1) < 5 * 2 ^ 64"
  shows "timed_out e t s 1 (seq11 e t s)"
  unfolding seq11_def Let_def
  by (rule timed_out_plain [OF seq11_body_quiet [OF rel] _ tk t ok room]) simp_all

lemma seq12_times_out:
  assumes rel: "released e" and tk: "ticking e" and t: "0 \<le> t" and ok: "ticks_ok s"
    and room: "clock s + served e (slot s) (5 * nat t + 2) < 5 * 2 ^ 64"
  shows "timed_out e t s 2 (seq12 e t s)"
  unfolding seq12_def Let_def
  by (rule timed_out_plain [OF seq12_body_quiet [OF rel] _ tk t ok room]) simp_all

lemma seq8_times_out:
  assumes rel: "released e" and tk: "ticking e" and t: "0 \<le> t" and ok: "ticks_ok s"
    and room: "clock s + served e (slot s) (5 * nat t + 10380) < 5 * 2 ^ 64"
  shows "timed_out e t s 10380 (seq8 e t s)"
proof -
  let ?s0 = "set_all 0 s"
  let ?M = "5 * nat t + 10380"
  have c: "clock ?s0 = clock s" "ticks_ok ?s0" using ok by (simp_all add: clock_def ticks_ok_def)
  then have ks0: "keeps_time e ?s0 ?M ?s0" using room by (intro keeps_time_start) simp_all
  have "slot ?s0 - slot ?s0 + 180 \<le> ?M" by simp
  from quiet_stmtD [OF seq8_intro_quiet [OF rel] ks0 this, of "()"]
  obtain l1 s1 where i: "seq8_intro e () ?s0 = Some (Continue l1 s1)"
    and k1: "keeps_time e ?s0 ?M s1" and sl: "slot s1 \<le> slot ?s0 + 180" by blast
  from seq_while_released [OF seq8_body_quiet [OF rel] _ tk t ks0 k1 refl, of l1]
  obtain s' where r: "seq_while (seq8_body e) t (millis ?s0) l1 s1 = Some (Val 0 s')"
    and d: "unat (millis ?s0) + nat t \<le> unat (millis s')"
    and late: "s' = s1 \<or> (\<exists>j. clock ?s0 + served e (slot ?s0) j
                                 < 5 * (unat (millis ?s0) + nat t) \<and>
                              slot s' \<le> slot ?s0 + j + 10380)" by auto
  have "\<exists>j. (j = 0 \<or> clock s + served e (slot s) j < 5 * (unat (millis s) + nat t)) \<and>
                   slot s' \<le> slot s + j + 10380"
  proof (cases "s' = s1")
    case True
    then have "slot s' \<le> slot s + 0 + 10380" using sl by simp
    then show ?thesis by blast
  next
    case False
    with late obtain j where "clock ?s0 + served e (slot ?s0) j < 5 * (unat (millis ?s0) + nat t)"
      "slot s' \<le> slot ?s0 + j + 10380" by blast
    then show ?thesis using c by auto
  qed
  moreover have "seq8 e t s = Some (Val 0 s')" using i r by (simp add: seq8_def Let_def)
  ultimately show ?thesis using d by (auto simp: timed_out_def)
qed

lemma seq_times_out:
  assumes rel: "released e" and tk: "ticking e" and t: "0 \<le> t" and ok: "ticks_ok s"
    and room: "clock s + served e (slot s) (5 * nat t + cycle_slots n) < 5 * 2 ^ 64"
  shows "timed_out e t s (cycle_slots n) (seq n e t s)"
proof -
  consider "n = 1" | "n = 2" | "n = 3" | "n = 4" | "n = 5" | "n = 6" | "n = 7" | "n = 8"
    | "n = 9" | "n = 10" | "n = 11" | "n \<notin> {1, 2, 3, 4, 5, 6, 7, 8, 9, 10, 11}" by auto
  then show ?thesis
  proof cases
    case 1 then show ?thesis
      using seq1_times_out [OF rel tk t ok] room by (simp add: seq_def cycle_slots_def)
  next
    case 2 then show ?thesis
      using seq2_times_out [OF rel tk t ok] room by (simp add: seq_def cycle_slots_def)
  next
    case 3 then show ?thesis
      using seq3_times_out [OF rel tk t ok] room by (simp add: seq_def cycle_slots_def)
  next
    case 4 then show ?thesis
      using seq4_times_out [OF rel tk t ok] room by (simp add: seq_def cycle_slots_def)
  next
    case 5 then show ?thesis
      using seq5_times_out [OF rel tk t ok] room by (simp add: seq_def cycle_slots_def)
  next
    case 6 then show ?thesis
      using seq6_times_out [OF rel tk t ok] room by (simp add: seq_def cycle_slots_def)
  next
    case 7 then show ?thesis
      using seq7_times_out [OF rel tk t ok] room by (simp add: seq_def cycle_slots_def)
  next
    case 8 then show ?thesis
      using seq8_times_out [OF rel tk t ok] room by (simp add: seq_def cycle_slots_def)
  next
    case 9 then show ?thesis
      using seq9_times_out [OF rel tk t ok] room by (simp add: seq_def cycle_slots_def)
  next
    case 10 then show ?thesis
      using seq10_times_out [OF rel tk t ok] room by (simp add: seq_def cycle_slots_def)
  next
    case 11 then show ?thesis
      using seq11_times_out [OF rel tk t ok] room by (simp add: seq_def cycle_slots_def)
  next
    case 12 then show ?thesis
      using seq12_times_out [OF rel tk t ok] room by (simp add: seq_def cycle_slots_def)
  qed
qed

lemma served_quiet: "served quiet i n = 4 * n"
  by (rule served_const) (simp add: quiet_def)

lemma released_quiet: "released quiet"
  by (simp add: released_def button_def quiet_def)

lemma ticking_quiet: "ticking quiet"
  by (simp add: ticking_def quiet_def)

lemma seq8_quiet_1000:
  "\<exists>s'. seq8 quiet 1000 hw0 = Some (Val 0 s') \<and> millis s' = 8448"
proof -
  let ?s0 = "set_all 0 hw0"
  let ?M = "20000 :: nat"
  have z: "clock ?s0 = 0" "slot ?s0 = 0" "millis ?s0 = 0"
    by (simp_all add: clock_def hw0_def)
  have "ticks_ok ?s0" by (simp add: ticks_ok_def hw0_def)
  then have ks0: "keeps_time quiet ?s0 ?M ?s0"
    by (intro keeps_time_start) (simp_all add: z served_quiet)
  have "slot ?s0 - slot ?s0 + 180 \<le> ?M" by simp
  from quiet_stmtD [OF seq8_intro_quiet [OF released_quiet] ks0 this, of "()"]
  obtain l1 s1 where i: "seq8_intro quiet () ?s0 = Some (Continue l1 s1)"
    and k1: "keeps_time quiet ?s0 ?M s1"
    and sl1: "slot ?s0 + 180 \<le> slot s1" "slot s1 \<le> slot ?s0 + 180" by blast
  have s1: "slot s1 = 180" using sl1 z by simp
  have "clock s1 = 720" using k1 s1 z by (simp add: keeps_time_def served_quiet)
  then have "unat (millis s1) = 144" using keeps_time_millis [OF k1] by simp
  then have m1: "millis s1 < 0 + of_int 1000" by (simp add: word_less_nat_alt)
  have "slot s1 - slot ?s0 + 10380 \<le> ?M" using s1 z by simp
  from quiet_stmtD [OF seq8_body_quiet [OF released_quiet] k1 this, of l1]
  obtain l2 s2 where b: "seq8_body quiet l1 s1 = Some (Continue l2 s2)"
    and k2: "keeps_time quiet ?s0 ?M s2"
    and sl2: "slot s1 + 10380 \<le> slot s2" "slot s2 \<le> slot s1 + 10380" by blast
  have s2: "slot s2 = 10560" using sl2 s1 by simp
  have "clock s2 = 42240" using k2 s2 z by (simp add: keeps_time_def served_quiet)
  then have u2: "unat (millis s2) = 8448" using keeps_time_millis [OF k2] by simp
  then have "unat (millis s2) = unat (8448 :: u64)" by simp
  then have e2: "millis s2 = 8448" by (simp only: word_unat_eq_iff)
  then have m2: "\<not> millis s2 < 0 + of_int 1000" by simp
  have "seq_while (seq8_body quiet) 1000 0 l2 s2 = Some (Val 0 s2)"
    using m2 by (subst seq_while.simps) simp
  then have "seq_while (seq8_body quiet) 1000 0 l1 s1 = Some (Val 0 s2)"
    using m1 b by (subst seq_while.simps) simp
  then have "seq8 quiet 1000 hw0 = Some (Val 0 s2)"
    using i z by (simp add: seq8_def Let_def)
  then show ?thesis using e2 by blast
qed

text \<open>
  C1, as stated, fails: the deadline is tested only between two passes of the pattern.
  Sequence 8, started at time 0 with a timeout of 1000 ms while four interrupts are
  served in every slot, returns 0 when the millisecond counter reads 8448. Its longest
  animation step (one poll and a delay of 30 ms, 31 slots) lasts 124 interrupts, less
  than 25 ms.
\<close>

theorem seq8_overshoots_deadline:
  "map_option returned (seq8 quiet 1000 hw0) = Some (Some 0) \<and>
   map_option (millis \<circ> final) (seq8 quiet 1000 hw0) = Some 8448 \<and>
   served quiet 0 31 = 124"
  using seq8_quiet_1000 by (auto simp: served_quiet)

text \<open>
  C1, amended. Let the button be released throughout, let every slot see a timer-0
  interrupt, let the tick counter be in its range and let the millisecond counter not
  wrap during the run. Then every sequence started with a timeout \<open>t \<ge> 0\<close> returns,
  with value 0, not before the millisecond counter has advanced by \<open>t\<close>, and at most
  one pass of its pattern (\<open>cycle_slots n\<close> slots) after the start or after a slot in
  which the counter had not yet reached the deadline.
\<close>

theorem bounded_sequence_times_out:
  assumes "released e" and "ticking e" and "0 \<le> t" and "ticks_ok s"
    and "clock s + served e (slot s) (5 * nat t + cycle_slots n) < 5 * 2 ^ 64"
  shows "timed_out e t s (cycle_slots n) (seq n e t s)"
  using assms by (rule seq_times_out)

theorem bounded_sequence_times_out_witness:
  "timed_out quiet 1000 hw0 (cycle_slots 8) (seq 8 quiet 1000 hw0) \<and>
   timed_out quiet 0 hw0 (cycle_slots 1) (seq 1 quiet 0 hw0)"
proof -
  have ok: "ticks_ok hw0" by (simp add: ticks_ok_def hw0_def)
  have c: "clock hw0 = 0" by (simp add: clock_def hw0_def)
  have "timed_out quiet 1000 hw0 (cycle_slots 8) (seq 8 quiet 1000 hw0)"
    by (rule bounded_sequence_times_out [OF released_quiet ticking_quiet _ ok])
      (simp_all add: c served_quiet cycle_slots_def)
  moreover have "timed_out quiet 0 hw0 (cycle_slots 1) (seq 1 quiet 0 hw0)"
    by (rule bounded_sequence_times_out [OF released_quiet ticking_quiet _ ok])
      (simp_all add: c served_quiet cycle_slots_def)
  ultimately show ?thesis by simp
qed

lemma check_returns:
  assumes "no_long_press e"
  shows "\<exists>r s'. check_button_input e s = Val r s'"
proof -
  have "\<not> (button e (slot s) < 1000 \<and> button e (slot s + 301) < 1000 \<and>
            button e (slot s + 3302) < 1000)"
    using assms by (simp add: no_long_press_def)
  then show ?thesis
    by (auto simp: check_button_input_def adc_read_def button_def Let_def returns_def add.commute)
qed

lemma keeps_time_check:
  assumes k: "keeps_time e s0 M s" and h: "slot s - slot s0 + 3303 \<le> M"
    and c: "check_button_input e s = Val r s'"
  shows "keeps_time e s0 M s' \<and> slot s < slot s' \<and> slot s' \<le> slot s + 3303"
proof -
  let ?s1 = "slot_pass e s"
  let ?s2 = "delay_ms e 300 ?s1"
  let ?s3 = "slot_pass e ?s2"
  let ?s4 = "delay_ms e 3000 ?s3"
  let ?s5 = "slot_pass e ?s4"
  have k1: "keeps_time e s0 M ?s1" using k h by (intro keeps_time_slot) simp_all
  have k2: "keeps_time e s0 M ?s2" using k1 h by (intro keeps_time_delay) simp_all
  have k3: "keeps_time e s0 M ?s3" using k2 h by (intro keeps_time_slot) simp_all
  have k4: "keeps_time e s0 M ?s4" using k3 h by (intro keeps_time_delay) simp_all
  have k5: "keeps_time e s0 M ?s5" using k4 h by (intro keeps_time_slot) simp_all
  have f: "keeps_time e s0 M (x\<lparr>trace := t\<rparr>)" if "keeps_time e s0 M x" for x t
    using that by (rule keeps_time_frame) simp_all
  from c consider "s' = ?s1\<lparr>trace := Checked r # trace ?s1\<rparr>"
    | "s' = ?s3\<lparr>trace := Checked r # trace ?s3\<rparr>"
    | "s' = ?s5\<lparr>trace := Checked r # trace ?s5\<rparr>"
    by (auto simp: check_button_input_def adc_read_def Let_def returns_def split: if_splits)
  then show ?thesis
  proof cases
    case 1
    then show ?thesis using f [OF k1] by simp
  next
    case 2
    then show ?thesis using f [OF k3] by simp
  next
    case 3
    then show ?thesis using f [OF k5] by simp
  qed
qed

lemma check_duration:
  assumes "check_button_input e s = Val r s'"
  shows "slot s' \<le> slot s + 3303"
  using assms
  by (auto simp: check_button_input_def adc_read_def Let_def returns_def split: if_splits)

lemma wait_loop_ends_in:
  assumes "ticking e" and "no_long_press e"
    and cb: "\<forall>s r s'. check_button_input e s = Val r s' \<longrightarrow> slot s' \<le> slot s + B"
  shows "keeps_time e s0 M s \<Longrightarrow>
         slot s - slot s0 + (5 * unat deadline - clock s) + 3303 \<le> M \<Longrightarrow>
         \<exists>r s'. delay_millis_check_button_loop e deadline bp s = Some (Val r s') \<and>
                keeps_time e s0 M s' \<and> slot s \<le> slot s' \<and>
                slot s' \<le> slot s + (5 * unat deadline - clock s) + B"
proof (induction "5 * unat deadline - clock s" arbitrary: s bp rule: less_induct)
  case less
  show ?case
  proof (cases "millis s < deadline")
    case False
    have "delay_millis_check_button_loop e deadline bp s = Some (Val bp s)"
      using False by (subst delay_millis_check_button_loop.simps) simp
    then have "delay_millis_check_button_loop e deadline bp s = Some (Val bp s) \<and>
        keeps_time e s0 M s \<and> slot s \<le> slot s \<and>
        slot s \<le> slot s + (5 * unat deadline - clock s) + B"
      using less.prems(1) by simp
    then show ?thesis by (intro exI)
  next
    case True
    then have c: "clock s < 5 * unat deadline"
      using keeps_time_before [OF less.prems(1)] by simp
    from check_returns [OF assms(2), of s] obtain r1 s1 where
      ch: "check_button_input e s = Val r1 s1" by blast
    have h: "slot s - slot s0 + 3303 \<le> M" using less.prems(2) by simp
    from keeps_time_check [OF less.prems(1) h ch]
    have k1: "keeps_time e s0 M s1" and sl: "slot s < slot s1" "slot s1 \<le> slot s + 3303"
      by simp_all
    from keeps_time_advance [OF assms(1) less.prems(1) k1] sl
    have g: "clock s + (slot s1 - slot s) \<le> clock s1" by simp
    have step: "delay_millis_check_button_loop e deadline bp s =
        delay_millis_check_button_loop e deadline (if r1 \<noteq> 0 then 1 else bp) s1"
      using True ch by (subst delay_millis_check_button_loop.simps) simp
    show ?thesis
    proof (cases "millis s1 < deadline")
      case False
      have "delay_millis_check_button_loop e deadline (if r1 \<noteq> 0 then 1 else bp) s1 =
          Some (Val (if r1 \<noteq> 0 then 1 else bp) s1)"
        using False by (subst delay_millis_check_button_loop.simps) simp
      then have "delay_millis_check_button_loop e deadline bp s =
          Some (Val (if r1 \<noteq> 0 then 1 else bp) s1) \<and>
        keeps_time e s0 M s1 \<and> slot s \<le> slot s1 \<and>
        slot s1 \<le> slot s + (5 * unat deadline - clock s) + B"
        using step k1 sl cb [rule_format, OF ch] by simp
      then show ?thesis by (intro exI)
    next
      case True
      then have c1: "clock s1 < 5 * unat deadline"
        using keeps_time_before [OF k1] by simp
      have m: "5 * unat deadline - clock s1 < 5 * unat deadline - clock s"
        using g sl c by simp
      have s0s: "slot s0 \<le> slot s" using less.prems(1) by (simp add: keeps_time_def)
      then have "slot s1 - slot s0 + (5 * unat deadline - clock s1) + 3303 \<le> M"
        using less.prems(2) g sl c1 by simp
      from less.hyps [OF m k1 this, of "if r1 \<noteq> 0 then 1 else bp"]
      obtain r s' where
        e: "delay_millis_check_button_loop e deadline (if r1 \<noteq> 0 then 1 else bp) s1 =
              Some (Val r s')"
        and k': "keeps_time e s0 M s'" and b: "slot s1 \<le> slot s'"
          "slot s' \<le> slot s1 + (5 * unat deadline - clock s1) + B" by blast
      have "slot s' \<le> slot s + (5 * unat deadline - clock s) + B"
        using b g sl c1 by simp
      then have "delay_millis_check_button_loop e deadline bp s = Some (Val r s') \<and>
        keeps_time e s0 M s' \<and> slot s \<le> slot s' \<and>
        slot s' \<le> slot s + (5 * unat deadline - clock s) + B"
        using step e k' b sl by simp
      then show ?thesis by (intro exI)
    qed
  qed
qed

lemma wait_returns:
  assumes t: "ticking e" and n: "no_long_press e" and ok: "ticks_ok s" and d: "0 \<le> d"
    and w: "clock s + served e (slot s) (5 * nat d + 3303) < 5 * 2 ^ 64"
  shows "\<exists>r s'. delay_millis_check_button e d s = Some (Val r s')"
proof -
  let ?M = "5 * nat d + 3303"
  have k: "keeps_time e s ?M s" using ok w by (rule keeps_time_start)
  have "?M \<le> served e (slot s) ?M" using t by (rule served_ticking)
  then have b: "clock s + 5 * nat d < 5 * 2 ^ 64" using w by simp
  have "5 * unat (millis s) \<le> clock s" by (simp add: clock_def)
  then have "unat (millis s) + nat d < 2 ^ 64" using b by simp
  from deadline_unat [OF d this]
  have "5 * unat (millis s + of_int d) - clock s \<le> 5 * nat d" by (simp add: clock_def)
  then have "slot s - slot s + (5 * unat (millis s + of_int d) - clock s) + 3303 \<le> ?M"
    by simp
  moreover have "\<forall>s r s'. check_button_input e s = Val r s' \<longrightarrow> slot s' \<le> slot s + 3303"
    using check_duration by blast
  ultimately have "\<exists>r s'. delay_millis_check_button_loop e (millis s + of_int d) 0 s =
        Some (Val r s') \<and> keeps_time e s ?M s' \<and> slot s \<le> slot s' \<and>
      slot s' \<le> slot s + (5 * unat (millis s + of_int d) - clock s) + 3303"
    using t n k by (intro wait_loop_ends_in [where B = 3303]) simp_all
  then show ?thesis by (auto simp: delay_millis_check_button_def)
qed

text \<open>
  C10. Whenever \<^verbatim>\<open>delay_millis_check_button(d)\<close> returns, the millisecond counter has
  reached its value at the call plus \<open>d\<close> (in 64-bit arithmetic, and as numbers when
  that sum does not wrap), whether or not a press was seen on the way, and the value
  returned is 1 if the input monitor returned 1 at least once during the wait and 0
  otherwise. And the call does return, for \<open>d \<ge> 0\<close>: when every slot sees a timer-0
  interrupt, the tick counter is in its range, the millisecond counter does not wrap
  during the wait and the button is never held through a long press.
\<close>

theorem wait_is_never_cut_short:
  assumes "0 \<le> d"
  shows "(\<forall>r s'. delay_millis_check_button e d s = Some (Val r s') \<longrightarrow>
            millis s + of_int d \<le> millis s' \<and>
            (unat (millis s) + nat d < 2 ^ 64 \<longrightarrow>
               unat (millis s) + nat d \<le> unat (millis s')) \<and>
            (\<exists>ev. trace s' = ev @ trace s \<and>
                  (r = 1 \<longleftrightarrow> Checked 1 \<in> set ev) \<and> (r = 0 \<longleftrightarrow> Checked 1 \<notin> set ev))) \<and>
         (ticking e \<and> no_long_press e \<and> ticks_ok s \<and>
          clock s + served e (slot s) (5 * nat d + 3303) < 5 * 2 ^ 64 \<longrightarrow>
            (\<exists>r s'. delay_millis_check_button e d s = Some (Val r s')))"
proof (intro conjI allI impI)
  fix r s'
  assume a: "delay_millis_check_button e d s = Some (Val r s')"
  from wait_returns_late [OF a] assms
  show "millis s + of_int d \<le> millis s'"
    and "\<exists>ev. trace s' = ev @ trace s \<and>
            (r = 1 \<longleftrightarrow> Checked 1 \<in> set ev) \<and> (r = 0 \<longleftrightarrow> Checked 1 \<notin> set ev)"
    by blast+
  assume "unat (millis s) + nat d < 2 ^ 64"
  with wait_returns_late [OF a] assms
  show "unat (millis s) + nat d \<le> unat (millis s')" by blast
next
  assume "ticking e \<and> no_long_press e \<and> ticks_ok s \<and>
          clock s + served e (slot s) (5 * nat d + 3303) < 5 * 2 ^ 64"
  then show "\<exists>r s'. delay_millis_check_button e d s = Some (Val r s')"
    using assms by (intro wait_returns) simp_all
qed

lemma served_blip: "served blip i n = 4 * n"
  by (rule served_const) (simp add: blip_def)

lemma blip_facts: "ticking blip" "no_long_press blip" "button blip 0 < 1000"
  "\<not> button blip 301 < 1000"
  by (simp_all add: ticking_def no_long_press_def button_def blip_def)

lemma blip_latched:
  "\<exists>s1. check_button_input blip hw0 = Val 1 s1 \<and> millis s1 = 241 \<and>
        trace s1 = [Checked 1, Shown 0 0 0 0 300] \<and>
        delay_millis_check_button blip 500 hw0 =
          delay_millis_check_button_loop blip 500 1 s1"
proof -
  let ?M = "1000 :: nat"
  have z: "clock hw0 = 0" "slot hw0 = 0" "millis hw0 = 0" "trace hw0 = []"
    "OCR0A hw0 = 0" "OCR0B hw0 = 0" "OCR1B hw0 = 0" "OCR1A hw0 = 0"
    by (simp_all add: clock_def hw0_def)
  have "ticks_ok hw0" by (simp add: ticks_ok_def hw0_def)
  then have k0: "keeps_time blip hw0 ?M hw0"
    by (intro keeps_time_start) (simp_all add: z served_blip)
  let ?s1 = "slot_pass blip hw0"
  let ?s2 = "delay_ms blip 300 ?s1"
  let ?s3 = "slot_pass blip ?s2"
  let ?s4 = "?s3\<lparr>trace := Checked 1 # trace ?s3\<rparr>"
  have k1: "keeps_time blip hw0 ?M ?s1" using k0 by (rule keeps_time_slot) (simp add: z)
  have k2: "keeps_time blip hw0 ?M ?s2" using k1 by (rule keeps_time_delay) (simp add: z)
  have k3: "keeps_time blip hw0 ?M ?s3" using k2 by (rule keeps_time_slot) (simp add: z)
  have k4: "keeps_time blip hw0 ?M ?s4" using k3 by (rule keeps_time_frame) simp_all
  have "slot ?s4 = 302" by (simp add: z)
  then have "clock ?s4 = 1208" using k4 z by (simp add: keeps_time_def served_blip)
  then have "unat (millis ?s4) = 241" using keeps_time_millis [OF k4] by simp
  then have m: "millis ?s4 = 241" by (simp add: word_unat_eq_iff)
  have c: "check_button_input blip hw0 = Val 1 ?s4"
    by (simp add: check_button_input_def adc_read_def Let_def returns_def z)
      (simp add: blip_def)
  have "delay_millis_check_button_loop blip 500 0 hw0 =
      delay_millis_check_button_loop blip 500 1 ?s4"
    using c z by (subst delay_millis_check_button_loop.simps) simp
  then have "delay_millis_check_button blip 500 hw0 =
      delay_millis_check_button_loop blip 500 1 ?s4"
    by (simp add: delay_millis_check_button_def z)
  moreover have "trace ?s4 = [Checked 1, Shown 0 0 0 0 300]" by (simp add: z)
  ultimately show ?thesis using c m by blast
qed

theorem wait_is_never_cut_short_witness:
  "\<exists>s'. delay_millis_check_button blip 500 hw0 = Some (Val 1 s') \<and>
        500 \<le> unat (millis s') \<and>
        (\<exists>s1. check_button_input blip hw0 = Val 1 s1 \<and> millis s1 = 241)"
proof -
  have h: "ticking blip \<and> no_long_press blip \<and> ticks_ok hw0 \<and>
      clock hw0 + served blip (slot hw0) (5 * nat 500 + 3303) < 5 * 2 ^ 64"
    by (simp add: blip_facts served_blip ticks_ok_def clock_def hw0_def)
  from wait_is_never_cut_short [of 500 blip hw0] h
  obtain r s' where e: "delay_millis_check_button blip 500 hw0 = Some (Val r s')"
    by auto
  from wait_is_never_cut_short [of 500 blip hw0] e obtain ev where
    m: "unat (millis hw0) + nat 500 < 2 ^ 64 \<longrightarrow> unat (millis hw0) + nat 500 \<le> unat (millis s')"
    and t: "trace s' = ev @ trace hw0" and r: "r = 1 \<longleftrightarrow> Checked 1 \<in> set ev"
    by auto
  from blip_latched obtain s1 where c: "check_button_input blip hw0 = Val 1 s1"
    and m1: "millis s1 = 241" and t1: "trace s1 = [Checked 1, Shown 0 0 0 0 300]"
    and l: "delay_millis_check_button blip 500 hw0 =
          delay_millis_check_button_loop blip 500 1 s1" by blast
  from wait_loop_partial [OF e [unfolded l]] obtain ev1 where "trace s' = ev1 @ trace s1"
    by auto
  then have "Checked 1 \<in> set (trace s')" using t1 by simp
  then have "r = 1" using r t by (simp add: hw0_def)
  moreover have "500 \<le> unat (millis s')" using m by (simp add: hw0_def)
  ultimately show ?thesis using e c m1 by blast
qed

lemma show_level_ignores_fade: "lit (show_level l s) = lit (show_level l' s)"
  by (simp add: show_level_def Let_def)

text \<open>
  C7 fails on the code. The fade-out step of sequence 12 decrements the local
  \<^verbatim>\<open>leds\<close>, which is overwritten with the fresh level before it is next written to
  the registers. With one sample of 0 in an otherwise silent buffer the registers
  hold 80 after 16 passes of the loop, when the millisecond counter reads 25, and 0
  after the 17th pass, when it reads 27.
\<close>

theorem sound_level_drops_at_once:
  "lit (times 16 (seq12_body clap) \<lparr>leds = 0, led_time = 0\<rparr>
          (init_mic_buffer (set_all 0 hw0))) = Some (80, 80, 80, 80, 25) \<and>
   lit (times 17 (seq12_body clap) \<lparr>leds = 0, led_time = 0\<rparr>
          (init_mic_buffer (set_all 0 hw0))) = Some (0, 0, 0, 0, 27)"
  by code_simp

subsection \<open>Sequences that run until the button is pressed\<close>

subsubsection \<open>What a statement reports\<close>

lemma flow_reports_simps:
  "flow_reports e s None = True"
  "flow_reports e s (Some (Restarted s')) =
     (\<exists>s1 ev. trace s1 = ev @ trace s \<and> check_button_input e s1 = Reset s')"
  "flow_reports e s (Some (Returned v s')) =
     (v = 1 \<and> (\<exists>s1 ev. trace s1 = ev @ trace s \<and> Checked 1 \<notin> set ev \<and> step_reports e s1 s'))"
  "flow_reports e s (Some (Continue l' s')) =
     (\<exists>ev. trace s' = ev @ trace s \<and> Checked 1 \<notin> set ev)"
  by (simp_all add: flow_reports_def)

lemma flow_reports_after:
  assumes t: "trace s1 = ev1 @ trace s" and n: "Checked 1 \<notin> set ev1"
    and r: "flow_reports e s1 r"
  shows "flow_reports e s r"
proof (cases r)
  case None
  then show ?thesis by (simp add: flow_reports_simps)
next
  case (Some f)
  show ?thesis
  proof (cases f)
    case (Restarted s')
    with r Some obtain sa ev where "trace sa = ev @ trace s1" "check_button_input e sa = Reset s'"
      by (auto simp: flow_reports_simps)
    then have "trace sa = (ev @ ev1) @ trace s \<and> check_button_input e sa = Reset s'"
      using t by simp
    then show ?thesis unfolding Some Restarted flow_reports_simps by blast
  next
    case (Returned v s')
    with r Some obtain sa ev where v: "v = 1" and "trace sa = ev @ trace s1"
      "Checked 1 \<notin> set ev" "step_reports e sa s'"
      by (auto simp: flow_reports_simps)
    then have "trace sa = (ev @ ev1) @ trace s \<and> Checked 1 \<notin> set (ev @ ev1) \<and>
        step_reports e sa s'"
      using t n by simp
    then show ?thesis unfolding Some Returned flow_reports_simps using v by blast
  next
    case (Continue l' s')
    with r Some obtain ev where "trace s' = ev @ trace s1" "Checked 1 \<notin> set ev"
      by (auto simp: flow_reports_simps)
    then have "trace s' = (ev @ ev1) @ trace s \<and> Checked 1 \<notin> set (ev @ ev1)"
      using t n by simp
    then show ?thesis unfolding Some Continue flow_reports_simps by blast
  qed
qed

lemma reportsD: "reports e c \<Longrightarrow> flow_reports e s (c l s)"
  by (simp add: reports_def)

lemma flow_RestartedI:
  "trace s1 = ev @ trace s \<Longrightarrow> check_button_input e s1 = Reset s' \<Longrightarrow>
   flow_reports e s (Some (Restarted s'))"
  unfolding flow_reports_simps by (intro exI [of _ s1] exI [of _ ev] conjI)

lemma flow_ReturnedI:
  "trace s1 = ev @ trace s \<Longrightarrow> Checked 1 \<notin> set ev \<Longrightarrow> step_reports e s1 s' \<Longrightarrow>
   flow_reports e s (Some (Returned 1 s'))"
  unfolding flow_reports_simps by (intro exI [of _ s1] exI [of _ ev] conjI refl)

lemma flow_ContinueI:
  "trace s' = ev @ trace s \<Longrightarrow> Checked 1 \<notin> set ev \<Longrightarrow>
   flow_reports e s (Some (Continue l' s'))"
  unfolding flow_reports_simps by (intro exI [of _ ev] conjI)

lemma poll_cases:
  "poll e l s = (case check_button_input e s of Reset s' \<Rightarrow> Some (Restarted s')
      | Val r s' \<Rightarrow> if r = 0 then Some (Continue l s') else Some (Returned 1 s'))"
  by (simp add: poll_def split: res.splits)

lemma reports_poll: "reports e (poll e)"
  unfolding reports_def
proof (intro allI)
  fix l :: 'a and s
  show "flow_reports e s (poll e l s)"
  proof (cases "check_button_input e s")
    case (Reset s')
    have "flow_reports e s (Some (Restarted s'))"
      by (rule flow_RestartedI [of s "[]"]) (simp_all add: Reset)
    then show ?thesis by (simp only: poll_cases Reset res.case)
  next
    case (Val r s')
    from check_trace [OF Val] obtain ev where
      t: "trace s' = Checked r # ev @ trace s" and n: "Checked 1 \<notin> set ev" by blast
    show ?thesis
    proof (cases "r = 0")
      case True
      have "flow_reports e s (Some (Continue l s'))"
        by (rule flow_ContinueI [of _ "Checked 0 # ev"]) (simp_all add: t n True)
      then show ?thesis by (simp only: poll_cases Val res.case True simp_thms if_True)
    next
      case False
      have "poll e () s = Some (Returned 1 s')"
        by (simp only: poll_cases Val res.case False if_False)
      then have "step_reports e s s'" by (simp only: step_reports_def simp_thms)
      then have "flow_reports e s (Some (Returned 1 s'))"
        by (rule flow_ReturnedI [of s "[]", rotated 2]) simp_all
      then show ?thesis by (simp only: poll_cases Val res.case False if_False)
    qed
  qed
qed

lemma wait_loop_restart:
  assumes "delay_millis_check_button_loop e deadline bp s = Some (Reset s')"
  shows "\<exists>s1 ev. trace s1 = ev @ trace s \<and> check_button_input e s1 = Reset s'"
proof -
  have "case y of Reset s' \<Rightarrow> (\<exists>s1 ev. trace s1 = ev @ trace s \<and> check_button_input e s1 = Reset s')
          | Val r s' \<Rightarrow> True"
    if "delay_millis_check_button_loop e deadline bp s = Some y" for y
    using that
  proof (induct rule: delay_millis_check_button_loop.raw_induct [rotated 1, consumes 1])
    case (1 loop e deadline bp s y)
    show ?case
    proof (cases "millis s < deadline")
      case False
      with 1(2) show ?thesis by auto
    next
      case True
      show ?thesis
      proof (cases "check_button_input e s")
        case (Reset s1)
        with True 1(2) have "y = Reset s1" by simp
        moreover have "trace s = [] @ trace s \<and> check_button_input e s = Reset s1"
          using Reset by simp
        ultimately show ?thesis by (simp only: res.case) blast
      next
        case (Val r1 s1)
        from check_trace [OF Val] obtain ev1 where t1: "trace s1 = (Checked r1 # ev1) @ trace s"
          by auto
        from True Val 1(2) have
          call: "loop e deadline (if r1 \<noteq> 0 then 1 else bp) s1 = Some y" by simp
        show ?thesis
        proof (cases y)
          case (Reset s')
          with 1(1) [OF call] obtain sa ev where "trace sa = ev @ trace s1"
            "check_button_input e sa = Reset s'" by auto
          then have "trace sa = (ev @ Checked r1 # ev1) @ trace s \<and>
             check_button_input e sa = Reset s'" using t1 by simp
          then show ?thesis unfolding Reset res.case by blast
        next
          case (Val r s')
          then show ?thesis by simp
        qed
      qed
    qed
  qed
  from this [OF assms] show ?thesis by simp
qed

lemma wait_poll_cases:
  "wait_poll e d l s = (case delay_millis_check_button e d s of None \<Rightarrow> None
      | Some (Reset s') \<Rightarrow> Some (Restarted s')
      | Some (Val r s') \<Rightarrow> if r = 0 then Some (Continue l s') else Some (Returned 1 s'))"
  by (simp add: wait_poll_def split: option.splits res.splits)

lemma reports_wait_poll: "reports e (wait_poll e d)"
  unfolding reports_def
proof (intro allI)
  fix l :: 'a and s
  show "flow_reports e s (wait_poll e d l s)"
  proof (cases "delay_millis_check_button e d s")
    case None
    then show ?thesis by (simp only: wait_poll_cases option.case flow_reports_simps)
  next
    case (Some y)
    show ?thesis
    proof (cases y)
      case (Reset s')
      from wait_loop_restart [OF Some [unfolded delay_millis_check_button_def Reset]]
      have "flow_reports e s (Some (Restarted s'))" unfolding flow_reports_simps .
      then show ?thesis by (simp only: wait_poll_cases Some Reset option.case res.case)
    next
      case (Val r s')
      from wait_returns_late [OF Some [unfolded Val]] obtain ev where
        t: "trace s' = ev @ trace s" and r: "r = 0 \<longleftrightarrow> Checked 1 \<notin> set ev" by blast
      show ?thesis
      proof (cases "r = 0")
        case True
        have "flow_reports e s (Some (Continue l s'))"
          using t r True by (intro flow_ContinueI [of _ ev]) simp_all
        then show ?thesis by (simp only: wait_poll_cases Some Val option.case res.case True simp_thms if_True)
      next
        case False
        have "wait_poll e d () s = Some (Returned 1 s')"
          by (simp only: wait_poll_cases Some Val option.case res.case False if_False)
        then have "step_reports e s s'" unfolding step_reports_def by (intro disjI2 exI [of _ d])
        then have "flow_reports e s (Some (Returned 1 s'))"
          by (rule flow_ReturnedI [of s "[]", rotated 2]) simp_all
        then show ?thesis
          by (simp only: wait_poll_cases Some Val option.case res.case False if_False)
      qed
    qed
  qed
qed

lemma reports_pause: "reports e (pause e n)"
  unfolding reports_def
proof (intro allI)
  fix l :: 'a and s
  show "flow_reports e s (pause e n l s)"
    unfolding pause_def wr_def
    by (rule flow_ContinueI [of _ "[Shown (OCR0A s) (OCR0B s) (OCR1B s) (OCR1A s) n]"]) simp_all
qed

lemma reports_run_Nil: "reports e (run [])"
  unfolding reports_def by (simp add: run.simps flow_reports_simps)

lemma reports_run_Cons:
  assumes c: "reports e c" and cs: "reports e (run cs)"
  shows "reports e (run (c # cs))"
  unfolding reports_def
proof (intro allI)
  fix l s
  have a: "flow_reports e s (c l s)" using c by (rule reportsD)
  show "flow_reports e s (run (c # cs) l s)"
  proof (cases "c l s")
    case None
    then show ?thesis by (simp add: run.simps flow_reports_simps)
  next
    case (Some f)
    show ?thesis
    proof (cases f)
      case (Restarted s')
      then show ?thesis using a Some by (simp add: run.simps)
    next
      case (Returned v s')
      then show ?thesis using a Some by (simp add: run.simps)
    next
      case (Continue l1 s1)
      with a Some obtain ev where "trace s1 = ev @ trace s" "Checked 1 \<notin> set ev"
        by (auto simp: flow_reports_simps)
      moreover have "flow_reports e s1 (run cs l1 s1)" using cs by (rule reportsD)
      ultimately have "flow_reports e s (run cs l1 s1)" by (rule flow_reports_after)
      then show ?thesis using Some Continue by (simp add: run.simps)
    qed
  qed
qed

lemma reports_run:
  assumes "\<And>c. c \<in> set cs \<Longrightarrow> reports e c"
  shows "reports e (run cs)"
  using assms
proof (induction cs)
  case Nil
  show ?case by (rule reports_run_Nil)
next
  case (Cons c cs)
  show ?case by (rule reports_run_Cons) (simp_all add: Cons)
qed

lemma reports_times: "reports e c \<Longrightarrow> reports e (times n c)"
  unfolding times_def by (rule reports_run) simp

lemma reports_for_each: "(\<And>x. reports e (f x)) \<Longrightarrow> reports e (for_each xs f)"
  unfolding for_each_def by (rule reports_run) auto

subsubsection \<open>A press of 301 slots is not missed\<close>

lemma alertI:
  assumes "\<And>l s. keeps_time e s0 M s \<Longrightarrow> slot s \<le> p + r \<Longrightarrow>
     (\<exists>s'. c l s = Some (Returned 1 s') \<and> slot s' \<le> p + 3102) \<or>
     (\<exists>l' s'. c l s = Some (Continue l' s') \<and> keeps_time e s0 M s' \<and>
              slot s + lo \<le> slot s' \<and> slot s' \<le> p + ob)"
  shows "alert e s0 M p c r ob lo"
  using assms by (simp add: alert_def)

lemma alertD:
  assumes "alert e s0 M p c r ob lo" and "keeps_time e s0 M s" and "slot s \<le> p + r"
  shows "(\<exists>s'. c l s = Some (Returned 1 s') \<and> slot s' \<le> p + 3102) \<or>
     (\<exists>l' s'. c l s = Some (Continue l' s') \<and> keeps_time e s0 M s' \<and>
              slot s + lo \<le> slot s' \<and> slot s' \<le> p + ob)"
  using assms unfolding alert_def by blast

lemma alert_weaken:
  assumes "alert e s0 M p c r ob lo" and "r' \<le> r" and "ob \<le> o'" and "lo' \<le> lo"
  shows "alert e s0 M p c r' o' lo'"
proof (rule alertI)
  fix l s
  assume k: "keeps_time e s0 M s" and h: "slot s \<le> p + r'"
  then have "slot s \<le> p + r" using assms(2) by simp
  from alertD [OF assms(1) k this, of l]
  show "(\<exists>s'. c l s = Some (Returned 1 s') \<and> slot s' \<le> p + 3102) \<or>
     (\<exists>l' s'. c l s = Some (Continue l' s') \<and> keeps_time e s0 M s' \<and>
              slot s + lo' \<le> slot s' \<and> slot s' \<le> p + o')"
  proof
    assume "\<exists>s'. c l s = Some (Returned 1 s') \<and> slot s' \<le> p + 3102"
    then show ?thesis by (rule disjI1)
  next
    assume "\<exists>l' s'. c l s = Some (Continue l' s') \<and> keeps_time e s0 M s' \<and>
              slot s + lo \<le> slot s' \<and> slot s' \<le> p + ob"
    then obtain l' s' where "c l s = Some (Continue l' s')" "keeps_time e s0 M s'"
      "slot s + lo \<le> slot s'" "slot s' \<le> p + ob" by blast
    then have "c l s = Some (Continue l' s') \<and> keeps_time e s0 M s' \<and>
              slot s + lo' \<le> slot s' \<and> slot s' \<le> p + o'"
      using assms(3,4) by simp
    then show ?thesis by (intro disjI2 exI)
  qed
qed

lemma alert_blind:
  assumes q: "quiet_stmt e s0 M c lo hi" and m: "p + 7000 \<le> slot s0 + M" and b: "r + hi \<le> 7000"
  shows "alert e s0 M p c r (r + hi) lo"
proof (rule alertI)
  fix l s
  assume k: "keeps_time e s0 M s" and h: "slot s \<le> p + r"
  have s0s: "slot s0 \<le> slot s" using k by (simp add: keeps_time_def)
  have "slot s - slot s0 + hi \<le> M" using h m b s0s by linarith
  from quiet_stmtD [OF q k this, of l]
  obtain l' s' where "c l s = Some (Continue l' s')" "keeps_time e s0 M s'"
    "slot s + lo \<le> slot s'" "slot s' \<le> slot s + hi" by blast
  then have "c l s = Some (Continue l' s') \<and> keeps_time e s0 M s' \<and>
              slot s + lo \<le> slot s' \<and> slot s' \<le> p + (r + hi)"
    using h by simp
  then show "(\<exists>s'. c l s = Some (Returned 1 s') \<and> slot s' \<le> p + 3102) \<or>
     (\<exists>l' s'. c l s = Some (Continue l' s') \<and> keeps_time e s0 M s' \<and>
              slot s + lo \<le> slot s' \<and> slot s' \<le> p + (r + hi))"
    by (intro disjI2 exI)
qed

lemma tapped_no_long_press: "tapped e p \<Longrightarrow> no_long_press e"
  by (auto simp: tapped_def no_long_press_def)

lemma check_tapped:
  assumes "tapped e p" and "check_button_input e s = Val r s'"
  shows "slot s' \<le> slot s + 302"
proof -
  have "\<not> (button e (slot s) < 1000 \<and> button e (slot s + 301) < 1000)"
    using assms(1) by (auto simp: tapped_def)
  then show ?thesis using assms(2)
    by (auto simp: check_button_input_def adc_read_def button_def Let_def returns_def
        add.commute split: if_splits)
qed

lemma alert_poll:
  assumes t: "tapped e p" and m: "p + 7000 \<le> slot s0 + M" and r: "r \<le> 300"
  shows "alert e s0 M p (poll e) r 0 1"
proof (rule alertI)
  fix l :: 'a and s
  assume k: "keeps_time e s0 M s" and h: "slot s \<le> p + r"
  show "(\<exists>s'. poll e l s = Some (Returned 1 s') \<and> slot s' \<le> p + 3102) \<or>
     (\<exists>l' s'. poll e l s = Some (Continue l' s') \<and> keeps_time e s0 M s' \<and>
              slot s + 1 \<le> slot s' \<and> slot s' \<le> p + 0)"
  proof (cases "slot s < p")
    case True
    then have "\<not> button e (slot s) < 1000" using t by (simp add: tapped_def)
    then have c: "check_button_input e s = Val 0 ((slot_pass e s)\<lparr>trace := Checked 0 # trace s\<rparr>)"
      by (rule released)
    have s0s: "slot s0 \<le> slot s" using k by (simp add: keeps_time_def)
    have "slot s - slot s0 < M" using h m r s0s by linarith
    with k have "keeps_time e s0 M (slot_pass e s)" by (rule keeps_time_slot)
    then have "keeps_time e s0 M ((slot_pass e s)\<lparr>trace := Checked 0 # trace s\<rparr>)"
      by (rule keeps_time_frame) simp_all
    then have "poll e l s = Some (Continue l ((slot_pass e s)\<lparr>trace := Checked 0 # trace s\<rparr>)) \<and>
        keeps_time e s0 M ((slot_pass e s)\<lparr>trace := Checked 0 # trace s\<rparr>) \<and>
        slot s + 1 \<le> slot ((slot_pass e s)\<lparr>trace := Checked 0 # trace s\<rparr>) \<and>
        slot ((slot_pass e s)\<lparr>trace := Checked 0 # trace s\<rparr>) \<le> p + 0"
      using c True by (simp add: poll_def)
    then show ?thesis by (intro disjI2 exI)
  next
    case False
    then have "button e (slot s) < 1000" "\<not> button e (slot s + 301) < 1000"
      using t h r by (simp_all add: tapped_def)
    then have "\<exists>s'. check_button_input e s = Val 1 s' \<and> slot s + 302 \<le> slot s'"
      by (intro tap) simp_all
    then obtain s' where c: "check_button_input e s = Val 1 s'" by blast
    from check_tapped [OF t c] h r have "slot s' \<le> p + 3102" by simp
    then have "poll e l s = Some (Returned 1 s') \<and> slot s' \<le> p + 3102"
      using c by (simp add: poll_def)
    then show ?thesis by (intro disjI1 exI)
  qed
qed

lemma wait_loop_tapped:
  assumes "tapped e p" and "delay_millis_check_button_loop e deadline bp s = Some y"
  shows "case y of Reset s' \<Rightarrow> True
    | Val rv s' \<Rightarrow> (bp = 1 \<longrightarrow> rv = 1) \<and>
        (slot s \<le> p + 300 \<longrightarrow> rv = 1 \<or> slot s' \<le> p \<or> s' = s)"
  using assms(2,1)
proof (induct rule: delay_millis_check_button_loop.raw_induct [rotated 1, consumes 1])
  case (1 loop e deadline bp s y)
  note t = \<open>tapped e p\<close>
  show ?case
  proof (cases "millis s < deadline")
    case False
    with 1(2) have "y = Val bp s" by simp
    then show ?thesis by simp
  next
    case True
    show ?thesis
    proof (cases "check_button_input e s")
      case (Reset s1)
      with True 1(2) show ?thesis by auto
    next
      case (Val r1 s1)
      from True Val 1(2) have
        call: "loop e deadline (if r1 \<noteq> 0 then 1 else bp) s1 = Some y" by simp
      show ?thesis
      proof (cases y)
        case (Reset s')
        then show ?thesis by simp
      next
        case v: (Val rv s')
        from 1(1) [OF call t] v have
          ih1: "(if r1 \<noteq> 0 then 1 else bp) = 1 \<longrightarrow> rv = 1"
          and ih2: "slot s1 \<le> p + 300 \<longrightarrow> rv = 1 \<or> slot s' \<le> p \<or> s' = s1" by simp_all
        have a: "bp = 1 \<longrightarrow> rv = 1" using ih1 by simp
        have b: "rv = 1 \<or> slot s' \<le> p \<or> s' = s" if h: "slot s \<le> p + 300"
        proof (cases "slot s < p")
          case True
          then have "\<not> button e (slot s) < 1000" using t by (simp add: tapped_def)
          from released [OF this] Val have "slot s1 = Suc (slot s)" by simp
          then have "slot s1 \<le> p" using True by simp
          then show ?thesis using ih2 by auto
        next
          case False
          then have "button e (slot s) < 1000" using t h by (simp add: tapped_def)
          then have "returned (check_button_input e s) \<noteq> Some 0"
            by (simp add: check_button_input_def adc_read_def button_def Let_def returns_def)
          then have "r1 \<noteq> 0" using Val by auto
          then show ?thesis using ih1 by simp
        qed
        show ?thesis using v a b by simp
      qed
    qed
  qed
qed

lemma alert_wait_poll:
  assumes t: "tapped e p" and tk: "ticking e" and m: "p + 7000 \<le> slot s0 + M"
    and d: "0 \<le> d" "d \<le> 500" and r: "r \<le> 300"
  shows "alert e s0 M p (wait_poll e d) r r 0"
proof (rule alertI)
  fix l :: 'a and s
  assume k: "keeps_time e s0 M s" and h: "slot s \<le> p + r"
  let ?D = "millis s + of_int d"
  have n5: "5 * nat d \<le> 2500" using d by simp
  have s0s: "slot s0 \<le> slot s" using k by (simp add: keeps_time_def)
  have hz: "slot s - slot s0 + 5 * nat d \<le> M" using h m r n5 s0s by linarith
  have "clock s + 5 * nat d < 5 * 2 ^ 64" using tk k hz by (rule keeps_time_room)
  then have "unat (millis s) + nat d < 2 ^ 64" by (simp add: clock_def)
  then have u: "unat ?D = unat (millis s) + nat d"
    using d(1) by (intro deadline_unat) simp_all
  then have le: "5 * unat ?D - clock s \<le> 5 * nat d" by (simp add: clock_def)
  then have "slot s - slot s0 + (5 * unat ?D - clock s) + 3303 \<le> M"
    using h m r n5 s0s by linarith
  moreover have "\<forall>s r s'. check_button_input e s = Val r s' \<longrightarrow> slot s' \<le> slot s + 302"
    using check_tapped [OF t] by blast
  ultimately have "\<exists>rv s'. delay_millis_check_button_loop e ?D 0 s = Some (Val rv s') \<and>
      keeps_time e s0 M s' \<and> slot s \<le> slot s' \<and>
      slot s' \<le> slot s + (5 * unat ?D - clock s) + 302"
    using tk tapped_no_long_press [OF t] k
    by (intro wait_loop_ends_in [where B = 302]) simp_all
  then
  obtain rv s' where e: "delay_millis_check_button_loop e ?D 0 s = Some (Val rv s')"
    and k': "keeps_time e s0 M s'" and sl: "slot s \<le> slot s'"
    and su: "slot s' \<le> slot s + (5 * unat ?D - clock s) + 302" by blast
  have late: "slot s' \<le> p + 3102" using su le n5 h r by simp
  from wait_loop_tapped [OF t e] h r
  have b: "rv = 1 \<or> slot s' \<le> p \<or> s' = s" by simp
  from wait_loop_partial [OF e] have v: "rv = 0 \<or> rv = 1" by auto
  show "(\<exists>s'. wait_poll e d l s = Some (Returned 1 s') \<and> slot s' \<le> p + 3102) \<or>
     (\<exists>l' s'. wait_poll e d l s = Some (Continue l' s') \<and> keeps_time e s0 M s' \<and>
              slot s + 0 \<le> slot s' \<and> slot s' \<le> p + r)"
  proof (cases "rv = 1")
    case True
    then have "wait_poll e d l s = Some (Returned 1 s') \<and> slot s' \<le> p + 3102"
      using e late by (simp add: wait_poll_def delay_millis_check_button_def)
    then show ?thesis by (intro disjI1 exI)
  next
    case False
    then have "rv = 0" using v by simp
    then have "wait_poll e d l s = Some (Continue l s')"
      using e by (simp add: wait_poll_def delay_millis_check_button_def)
    moreover have "slot s' \<le> p + r" using b False h by auto
    ultimately have "wait_poll e d l s = Some (Continue l s') \<and> keeps_time e s0 M s' \<and>
              slot s + 0 \<le> slot s' \<and> slot s' \<le> p + r"
      using k' sl by simp
    then show ?thesis by (intro disjI2 exI)
  qed
qed

lemma alert_run_Nil: "alert e s0 M p (run []) r r 0"
proof (rule alertI)
  fix l :: 'a and s
  assume "keeps_time e s0 M s" "slot s \<le> p + r"
  then have "run [] l s = Some (Continue l s) \<and> keeps_time e s0 M s \<and>
     slot s + 0 \<le> slot s \<and> slot s \<le> p + r" by (simp add: run.simps)
  then show "(\<exists>s'. run [] l s = Some (Returned 1 s') \<and> slot s' \<le> p + 3102) \<or>
     (\<exists>l' s'. run [] l s = Some (Continue l' s') \<and> keeps_time e s0 M s' \<and>
              slot s + 0 \<le> slot s' \<and> slot s' \<le> p + r)"
    by (intro disjI2 exI)
qed

lemma alert_run_Cons:
  assumes "alert e s0 M p c r m lo1" and "alert e s0 M p (run cs) m ob lo2"
  shows "alert e s0 M p (run (c # cs)) r ob (lo1 + lo2)"
proof (rule alertI)
  fix l s
  assume k: "keeps_time e s0 M s" and h: "slot s \<le> p + r"
  from alertD [OF assms(1) k h, of l]
  show "(\<exists>s'. run (c # cs) l s = Some (Returned 1 s') \<and> slot s' \<le> p + 3102) \<or>
     (\<exists>l' s'. run (c # cs) l s = Some (Continue l' s') \<and> keeps_time e s0 M s' \<and>
              slot s + (lo1 + lo2) \<le> slot s' \<and> slot s' \<le> p + ob)"
  proof
    assume "\<exists>s'. c l s = Some (Returned 1 s') \<and> slot s' \<le> p + 3102"
    then obtain s' where "c l s = Some (Returned 1 s')" "slot s' \<le> p + 3102" by blast
    then have "run (c # cs) l s = Some (Returned 1 s') \<and> slot s' \<le> p + 3102" by (simp add: run.simps)
    then show ?thesis by (intro disjI1 exI)
  next
    assume "\<exists>l' s'. c l s = Some (Continue l' s') \<and> keeps_time e s0 M s' \<and>
              slot s + lo1 \<le> slot s' \<and> slot s' \<le> p + m"
    then obtain l1 s1 where c1: "c l s = Some (Continue l1 s1)" and k1: "keeps_time e s0 M s1"
      and b1: "slot s + lo1 \<le> slot s1" "slot s1 \<le> p + m" by blast
    from alertD [OF assms(2) k1 b1(2), of l1]
    show ?thesis
    proof
      assume "\<exists>s'. run cs l1 s1 = Some (Returned 1 s') \<and> slot s' \<le> p + 3102"
      then obtain s' where "run cs l1 s1 = Some (Returned 1 s')" "slot s' \<le> p + 3102" by blast
      then have "run (c # cs) l s = Some (Returned 1 s') \<and> slot s' \<le> p + 3102" using c1 by (simp add: run.simps)
      then show ?thesis by (intro disjI1 exI)
    next
      assume "\<exists>l' s'. run cs l1 s1 = Some (Continue l' s') \<and> keeps_time e s0 M s' \<and>
              slot s1 + lo2 \<le> slot s' \<and> slot s' \<le> p + ob"
      then obtain l2 s2 where "run cs l1 s1 = Some (Continue l2 s2)" "keeps_time e s0 M s2"
        "slot s1 + lo2 \<le> slot s2" "slot s2 \<le> p + ob" by blast
      then have "run (c # cs) l s = Some (Continue l2 s2) \<and> keeps_time e s0 M s2 \<and>
              slot s + (lo1 + lo2) \<le> slot s2 \<and> slot s2 \<le> p + ob"
        using c1 b1 by (simp add: run.simps)
      then show ?thesis by (intro disjI2 exI)
    qed
  qed
qed

lemma alert_run_same:
  assumes "\<And>c. c \<in> set cs \<Longrightarrow> alert e s0 M p c r r 0"
  shows "alert e s0 M p (run cs) r r 0"
  using assms
proof (induction cs)
  case Nil
  show ?case by (rule alert_run_Nil)
next
  case (Cons c cs)
  have "alert e s0 M p (run (c # cs)) r r (0 + 0)"
    by (rule alert_run_Cons [where m = r]) (simp_all add: Cons)
  then show ?case by simp
qed

lemma alert_times:
  assumes a: "alert e s0 M p c 300 ob lo" and ob: "ob \<le> 300" and r: "r \<le> 300" and n: "0 < n"
  shows "alert e s0 M p (times n c) r 300 lo"
proof -
  have w: "alert e s0 M p c 300 300 0" using a by (rule alert_weaken) (simp_all add: ob)
  obtain k where k: "n = Suc k" using n by (cases n) simp_all
  have "alert e s0 M p (run (replicate k c)) 300 300 0"
    by (rule alert_run_same) (simp add: w)
  with a have "alert e s0 M p (run (c # replicate k c)) 300 300 (lo + 0)"
    by (intro alert_run_Cons [where m = 300] alert_weaken [OF a]) (simp_all add: ob)
  then have "alert e s0 M p (times n c) 300 300 lo" by (simp add: times_def k)
  then show ?thesis by (rule alert_weaken) (simp_all add: r)
qed

lemma alert_for_each:
  assumes a: "\<And>x. alert e s0 M p (f x) 300 ob lo" and ob: "ob \<le> 300" and r: "r \<le> 300"
    and n: "xs \<noteq> []"
  shows "alert e s0 M p (for_each xs f) r 300 lo"
proof -
  have w: "alert e s0 M p (f x) 300 300 0" for x
    using a [of x] by (rule alert_weaken) (simp_all add: ob)
  obtain y ys where k: "xs = y # ys" using n by (cases xs) simp_all
  have "alert e s0 M p (run (map f ys)) 300 300 0"
    by (rule alert_run_same) (auto simp: w)
  then have "alert e s0 M p (run (f y # map f ys)) 300 300 (lo + 0)"
    by (intro alert_run_Cons [where m = 300] alert_weaken [OF a]) (simp_all add: ob)
  then have "alert e s0 M p (for_each xs f) 300 300 lo" by (simp add: for_each_def k)
  then show ?thesis by (rule alert_weaken) (simp_all add: r)
qed

lemma seq_while_alert:
  assumes a: "alert e s0 M p body r r 1" and t: "timeout < 0"
  shows "keeps_time e s0 M s \<Longrightarrow> slot s \<le> p + r \<Longrightarrow>
         \<exists>s'. seq_while body timeout start l s = Some (Val 1 s') \<and> slot s' \<le> p + 3102"
proof (induction "p + r + 1 - slot s" arbitrary: s l rule: less_induct)
  case less
  from alertD [OF a less.prems, of l]
  show ?case
  proof
    assume "\<exists>s'. body l s = Some (Returned 1 s') \<and> slot s' \<le> p + 3102"
    then obtain s' where "body l s = Some (Returned 1 s')" "slot s' \<le> p + 3102" by blast
    then have "seq_while body timeout start l s = Some (Val 1 s') \<and> slot s' \<le> p + 3102"
      using t by (subst seq_while.simps) simp
    then show ?thesis by (intro exI)
  next
    assume "\<exists>l' s'. body l s = Some (Continue l' s') \<and> keeps_time e s0 M s' \<and>
              slot s + 1 \<le> slot s' \<and> slot s' \<le> p + r"
    then obtain l1 s1 where b: "body l s = Some (Continue l1 s1)"
      and k1: "keeps_time e s0 M s1" and sl: "slot s + 1 \<le> slot s1" "slot s1 \<le> p + r"
      by blast
    have "p + r + 1 - slot s1 < p + r + 1 - slot s" using sl by simp
    from less.hyps [OF this k1 sl(2), of l1]
    obtain s' where "seq_while body timeout start l1 s1 = Some (Val 1 s')" "slot s' \<le> p + 3102" by blast
    then have "seq_while body timeout start l s = Some (Val 1 s') \<and> slot s' \<le> p + 3102"
      using t b by (subst seq_while.simps) simp
    then show ?thesis by (intro exI)
  qed
qed

lemma alert_out:
  assumes "alert e s0 M p c r ob lo" and "ob \<le> o'" and "lo' \<le> lo"
  shows "alert e s0 M p c r o' lo'"
  using assms(1) by (rule alert_weaken) (simp_all add: assms)

lemma alert_pause:
  assumes "p + 7000 \<le> slot s0 + M" and "r + n \<le> 7000"
  shows "alert e s0 M p (pause e n) r (r + n) n"
  using quiet_pause assms by (rule alert_blind)

lemma alert_still:
  assumes "quiet_stmt e s0 M c 0 0" and "p + 7000 \<le> slot s0 + M" and "r \<le> 7000"
  shows "alert e s0 M p c r r 0"
  using alert_blind [OF assms(1,2), of r] assms(3) by simp

lemma alert_wr:
  assumes "p + 7000 \<le> slot s0 + M" and "r \<le> 7000"
  shows "alert e s0 M p (wr (set_all v)) r r 0"
    "alert e s0 M p (wr (ocr_write k v)) r r 0"
    "alert e s0 M p (wr inc_all) r r 0" "alert e s0 M p (wr dec_all) r r 0"
    "alert e s0 M p (wr inc2_all) r r 0"
    "alert e s0 M p dec_leds r r 0" "alert e s0 M p show_walk r r 0"
    "alert e s0 M p (seq10_update i) r r 0" "alert e s0 M p (seq11_update i) r r 0"
    "alert e s0 M p (choose_led e n d) r r 0" "alert e s0 M p show_level r r 0"
  by (rule alert_still [OF _ assms],
      rule quiet_set_all quiet_ocr_write quiet_inc_dec quiet_dec_leds quiet_show_walk
        quiet_seq10_update quiet_seq11_update quiet_choose_led quiet_show_level)+

lemma alert_sample_mic:
  assumes "p + 7000 \<le> slot s0 + M" and "r + 1 \<le> 7000"
  shows "alert e s0 M p (wr (sample_mic e)) r (r + 1) 1"
  using quiet_sample_mic assms by (rule alert_blind)

lemma alert_wait_poll_numeral:
  assumes "tapped e p" and "ticking e" and "p + 7000 \<le> slot s0 + M"
    and "(numeral n :: int) \<le> 500" and "r \<le> 300"
  shows "alert e s0 M p (wait_poll e (numeral n)) r r 0"
  using assms by (intro alert_wait_poll) simp_all

lemma alert_fade_in:
  assumes t: "tapped e p" and m: "p + 7000 \<le> slot s0 + M" and d: "d \<le> 300"
  shows "alert e s0 M p (fade_in e k d) 300 300 0"
proof (rule alertI)
  fix l s
  show "keeps_time e s0 M s \<Longrightarrow> slot s \<le> p + 300 \<Longrightarrow>
     (\<exists>s'. fade_in e k d l s = Some (Returned 1 s') \<and> slot s' \<le> p + 3102) \<or>
     (\<exists>l' s'. fade_in e k d l s = Some (Continue l' s') \<and> keeps_time e s0 M s' \<and>
              slot s + 0 \<le> slot s' \<and> slot s' \<le> p + 300)"
  proof (induction "255 - unat (l k)" arbitrary: l s)
    case 0
    have "unat (l k) < 2 ^ LENGTH(8)" by (rule unsigned_less)
    with 0 have "unat (l k) = unat (255 :: u8)" by simp
    then have "l k = 255" by (simp only: word_unat_eq_iff)
    then have "fade_in e k d l s = Some (Continue l s)" by (subst fade_in.simps) simp
    then have "fade_in e k d l s = Some (Continue l s) \<and> keeps_time e s0 M s \<and>
       slot s + 0 \<le> slot s \<and> slot s \<le> p + 300" using 0 by simp
    then show ?case by (intro disjI2 exI)
  next
    case (Suc n)
    from Suc(2) have lt: "unat (l k) < 255" by simp
    then have w: "l k < 255" by (simp add: word_less_nat_alt)
    have u: "unat (l k + 1) = unat (l k) + 1" using lt by (simp add: unat_word_ariths)
    from alertD [OF alert_poll [OF t m order_refl] Suc.prems, of l]
    show ?case
    proof
      assume "\<exists>s'. poll e l s = Some (Returned 1 s') \<and> slot s' \<le> p + 3102"
      then obtain s' where "poll e l s = Some (Returned 1 s')" "slot s' \<le> p + 3102" by blast
      then have "fade_in e k d l s = Some (Returned 1 s') \<and> slot s' \<le> p + 3102"
        using w by (subst fade_in.simps) simp
      then show ?thesis by (intro disjI1 exI)
    next
      assume "\<exists>l' s'. poll e l s = Some (Continue l' s') \<and> keeps_time e s0 M s' \<and>
              slot s + 1 \<le> slot s' \<and> slot s' \<le> p + 0"
      then obtain l1 s1 where po: "poll e l s = Some (Continue l1 s1)"
        and k1: "keeps_time e s0 M s1" and sl: "slot s + 1 \<le> slot s1" "slot s1 \<le> p + 0"
        by blast
      let ?s2 = "delay_ms e d (ocr_write k (l k + 1) s1)"
      let ?l2 = "l(k := l k + 1)"
      have s0s: "slot s0 \<le> slot s1" using k1 by (simp add: keeps_time_def)
      have "keeps_time e s0 M (ocr_write k (l k + 1) s1)"
        using k1 by (rule keeps_time_frame) simp_all
      moreover have "slot (ocr_write k (l k + 1) s1) - slot s0 + d \<le> M"
        using sl m d s0s by simp
      ultimately have k2: "keeps_time e s0 M ?s2" by (rule keeps_time_delay)
      have sl2: "slot ?s2 \<le> p + 300" using sl d by simp
      have mm: "n = 255 - unat (?l2 k)" using Suc(2) u by simp
      from Suc(1) [of ?l2 ?s2, OF mm k2 sl2]
      show ?thesis
      proof
        assume "\<exists>s'. fade_in e k d ?l2 ?s2 = Some (Returned 1 s') \<and> slot s' \<le> p + 3102"
        then obtain s' where "fade_in e k d ?l2 ?s2 = Some (Returned 1 s')" "slot s' \<le> p + 3102" by blast
        then have "fade_in e k d l s = Some (Returned 1 s') \<and> slot s' \<le> p + 3102"
          using w po by (subst fade_in.simps) simp
        then show ?thesis by (intro disjI1 exI)
      next
        assume "\<exists>l' s'. fade_in e k d ?l2 ?s2 = Some (Continue l' s') \<and>
            keeps_time e s0 M s' \<and> slot ?s2 + 0 \<le> slot s' \<and> slot s' \<le> p + 300"
        then obtain l' s' where "fade_in e k d ?l2 ?s2 = Some (Continue l' s')"
          "keeps_time e s0 M s'" "slot ?s2 + 0 \<le> slot s'" "slot s' \<le> p + 300" by blast
        then have "fade_in e k d l s = Some (Continue l' s') \<and> keeps_time e s0 M s' \<and>
            slot s + 0 \<le> slot s' \<and> slot s' \<le> p + 300"
          using w po sl by (subst fade_in.simps) simp
        then show ?thesis by (intro disjI2 exI)
      qed
    qed
  qed
qed

lemma alert_fade_out:
  assumes t: "tapped e p" and m: "p + 7000 \<le> slot s0 + M" and d: "d \<le> 300"
  shows "alert e s0 M p (fade_out e k d) 300 300 0"
proof (rule alertI)
  fix l s
  show "keeps_time e s0 M s \<Longrightarrow> slot s \<le> p + 300 \<Longrightarrow>
     (\<exists>s'. fade_out e k d l s = Some (Returned 1 s') \<and> slot s' \<le> p + 3102) \<or>
     (\<exists>l' s'. fade_out e k d l s = Some (Continue l' s') \<and> keeps_time e s0 M s' \<and>
              slot s + 0 \<le> slot s' \<and> slot s' \<le> p + 300)"
  proof (induction "unat (l k)" arbitrary: l s)
    case 0
    then have "unat (l k) = unat (0 :: u8)" by simp
    then have "l k = 0" by (simp only: word_unat_eq_iff)
    then have "fade_out e k d l s = Some (Continue l s)" by (subst fade_out.simps) simp
    then have "fade_out e k d l s = Some (Continue l s) \<and> keeps_time e s0 M s \<and>
       slot s + 0 \<le> slot s \<and> slot s \<le> p + 300" using 0 by simp
    then show ?case by (intro disjI2 exI)
  next
    case (Suc n)
    from Suc(2) have lt: "0 < unat (l k)" by simp
    then have w: "0 < l k" by (simp add: word_less_nat_alt)
    have "1 \<le> l k" using lt by (simp add: word_le_nat_alt)
    then have "unat (l k - 1) = unat (l k) - unat (1 :: u8)" by (rule unat_sub)
    then have u: "unat (l k - 1) = unat (l k) - 1" by simp
    from alertD [OF alert_poll [OF t m order_refl] Suc.prems, of l]
    show ?case
    proof
      assume "\<exists>s'. poll e l s = Some (Returned 1 s') \<and> slot s' \<le> p + 3102"
      then obtain s' where "poll e l s = Some (Returned 1 s')" "slot s' \<le> p + 3102" by blast
      then have "fade_out e k d l s = Some (Returned 1 s') \<and> slot s' \<le> p + 3102"
        using w by (subst fade_out.simps) simp
      then show ?thesis by (intro disjI1 exI)
    next
      assume "\<exists>l' s'. poll e l s = Some (Continue l' s') \<and> keeps_time e s0 M s' \<and>
              slot s + 1 \<le> slot s' \<and> slot s' \<le> p + 0"
      then obtain l1 s1 where po: "poll e l s = Some (Continue l1 s1)"
        and k1: "keeps_time e s0 M s1" and sl: "slot s + 1 \<le> slot s1" "slot s1 \<le> p + 0"
        by blast
      let ?s2 = "delay_ms e d (ocr_write k (l k - 1) s1)"
      let ?l2 = "l(k := l k - 1)"
      have s0s: "slot s0 \<le> slot s1" using k1 by (simp add: keeps_time_def)
      have "keeps_time e s0 M (ocr_write k (l k - 1) s1)"
        using k1 by (rule keeps_time_frame) simp_all
      moreover have "slot (ocr_write k (l k - 1) s1) - slot s0 + d \<le> M"
        using sl m d s0s by simp
      ultimately have k2: "keeps_time e s0 M ?s2" by (rule keeps_time_delay)
      have sl2: "slot ?s2 \<le> p + 300" using sl d by simp
      have mm: "n = unat (?l2 k)" using Suc(2) u by simp
      from Suc(1) [of ?l2 ?s2, OF mm k2 sl2]
      show ?thesis
      proof
        assume "\<exists>s'. fade_out e k d ?l2 ?s2 = Some (Returned 1 s') \<and> slot s' \<le> p + 3102"
        then obtain s' where "fade_out e k d ?l2 ?s2 = Some (Returned 1 s')" "slot s' \<le> p + 3102" by blast
        then have "fade_out e k d l s = Some (Returned 1 s') \<and> slot s' \<le> p + 3102"
          using w po by (subst fade_out.simps) simp
        then show ?thesis by (intro disjI1 exI)
      next
        assume "\<exists>l' s'. fade_out e k d ?l2 ?s2 = Some (Continue l' s') \<and>
            keeps_time e s0 M s' \<and> slot ?s2 + 0 \<le> slot s' \<and> slot s' \<le> p + 300"
        then obtain l' s' where "fade_out e k d ?l2 ?s2 = Some (Continue l' s')"
          "keeps_time e s0 M s'" "slot ?s2 + 0 \<le> slot s'" "slot s' \<le> p + 300" by blast
        then have "fade_out e k d l s = Some (Continue l' s') \<and> keeps_time e s0 M s' \<and>
            slot s + 0 \<le> slot s' \<and> slot s' \<le> p + 300"
          using w po sl by (subst fade_out.simps) simp
        then show ?thesis by (intro disjI2 exI)
      qed
    qed
  qed
qed

lemmas alert_intros =
  alert_run_Cons alert_run_Nil alert_times alert_for_each alert_poll alert_pause
  alert_wait_poll_numeral alert_wr alert_sample_mic alert_fade_in alert_fade_out

lemma seq10_body_alert:
  assumes "tapped e p" and "ticking e" and "p + 7000 \<le> slot s0 + M"
  shows "alert e s0 M p (seq10_body e) 300 300 1"
  apply (rule alert_out)
    apply (unfold seq10_body_def)
    apply (rule alert_intros assms | simp)+
  done

lemma seq4_body_alert:
  assumes "tapped e p" and "ticking e" and "p + 7000 \<le> slot s0 + M"
  shows "alert e s0 M p (seq4_body e) 300 300 1"
  apply (rule alert_out)
    apply (unfold seq4_body_def)
    apply (rule alert_intros assms | simp)+
  done

lemma seq12_body_alert:
  assumes "tapped e p" and "ticking e" and "p + 7000 \<le> slot s0 + M"
  shows "alert e s0 M p (seq12_body e) 299 299 1"
  apply (rule alert_out)
    apply (unfold seq12_body_def)
    apply (rule alert_intros assms | simp)+
  done

lemma seq1_body_alert0:
  assumes "tapped e p" and "ticking e" and "p + 7000 \<le> slot s0 + M"
  shows "alert e s0 M p (seq1_body e) 300 300 0"
  apply (rule alert_out)
    apply (unfold seq1_body_def)
    apply (rule alert_intros assms | simp)+
  done

lemma seq2_body_alert:
  assumes "tapped e p" and "ticking e" and "p + 7000 \<le> slot s0 + M"
  shows "alert e s0 M p (seq2_body e) 300 300 1"
  apply (rule alert_out)
    apply (unfold seq2_body_def)
    apply (rule alert_intros assms | simp)+
  done

lemma seq3_body_alert:
  assumes "tapped e p" and "ticking e" and "p + 7000 \<le> slot s0 + M"
  shows "alert e s0 M p (seq3_body e) 300 300 1"
  apply (rule alert_out)
    apply (unfold seq3_body_def flash_def append.simps)
    apply (rule alert_intros assms | simp)+
  done

lemma seq5_body_alert:
  assumes "tapped e p" and "ticking e" and "p + 7000 \<le> slot s0 + M"
  shows "alert e s0 M p (seq5_body e) 300 300 1"
  apply (rule alert_out)
    apply (unfold seq5_body_def)
    apply (rule alert_intros assms | simp)+
  done

lemma seq6_body_alert:
  assumes "tapped e p" and "ticking e" and "p + 7000 \<le> slot s0 + M"
  shows "alert e s0 M p (seq6_body e) 300 300 1"
  apply (rule alert_out)
    apply (unfold seq6_body_def rise_def hand_off_def fall_def)
    apply (rule alert_intros assms | simp)+
  done

lemma seq7_body_alert:
  assumes "tapped e p" and "ticking e" and "p + 7000 \<le> slot s0 + M"
  shows "alert e s0 M p (seq7_body e) 300 300 1"
  apply (rule alert_out)
    apply (unfold seq7_body_def rise_def hand_off_def fall_def)
    apply (rule alert_intros assms | simp)+
  done

lemma seq8_body_alert:
  assumes "tapped e p" and "ticking e" and "p + 7000 \<le> slot s0 + M"
  shows "alert e s0 M p (seq8_body e) 300 300 1"
  apply (rule alert_out)
    apply (unfold seq8_body_def)
    apply (rule alert_intros assms | simp)+
  done

lemma seq8_intro_alert:
  assumes "tapped e p" and "ticking e" and "p + 7000 \<le> slot s0 + M"
  shows "alert e s0 M p (seq8_intro e) 300 300 0"
  apply (rule alert_out)
    apply (unfold seq8_intro_def)
    apply (rule alert_intros assms | simp)+
  done

lemma seq9_body_alert:
  assumes "tapped e p" and "ticking e" and "p + 7000 \<le> slot s0 + M"
  shows "alert e s0 M p (seq9_body e) 300 300 1"
  apply (rule alert_out)
    apply (unfold seq9_body_def)
    apply (rule alert_intros assms | simp)+
  done

lemma seq11_body_alert:
  assumes "tapped e p" and "ticking e" and "p + 7000 \<le> slot s0 + M"
  shows "alert e s0 M p (seq11_body e) 300 300 1"
  apply (rule alert_out)
    apply (unfold seq11_body_def)
    apply (rule alert_intros assms | simp)+
  done

lemma run_Cons_Continue:
  assumes "run (c # cs) l s = Some (Continue l' s')"
  obtains l1 s1 where "c l s = Some (Continue l1 s1)" "run cs l1 s1 = Some (Continue l' s')"
  using assms by (auto simp: run.simps split: option.splits flow.splits)

lemma poll_Continue:
  assumes "poll e l s = Some (Continue l1 s1)"
  shows "slot s < slot s1"
proof -
  from assms obtain r where "check_button_input e s = Val r s1"
    by (auto simp: poll_def split: res.splits if_splits)
  from check_trace [OF this] show ?thesis by simp
qed

lemma fade_in_Continue:
  "fade_in e k d l s = Some (Continue l' s') \<Longrightarrow>
   slot s \<le> slot s' \<and> l' = l(k := 255) \<and> (l k < 255 \<longrightarrow> slot s < slot s')"
proof (induction "255 - unat (l k)" arbitrary: l s)
  case 0
  have "unat (l k) < 2 ^ LENGTH(8)" by (rule unsigned_less)
  with 0 have "unat (l k) = unat (255 :: u8)" by simp
  then have e: "l k = 255" by (simp only: word_unat_eq_iff)
  then have "fade_in e k d l s = Some (Continue l s)" by (subst fade_in.simps) simp
  with 0(2) have "l' = l" "s' = s" by simp_all
  moreover have "l(k := 255) = l" using e by auto
  ultimately show ?case using e by simp
next
  case (Suc n)
  from Suc(2) have lt: "unat (l k) < 255" by simp
  then have w: "l k < 255" by (simp add: word_less_nat_alt)
  have u: "unat (l k + 1) = unat (l k) + 1" using lt by (simp add: unat_word_ariths)
  let ?l2 = "l(k := l k + 1)"
  have f: "fade_in e k d l s =
      (case poll e l s of
         Some (Continue l1 s1) \<Rightarrow> fade_in e k d ?l2 (delay_ms e d (ocr_write k (l k + 1) s1))
       | r \<Rightarrow> r)"
    using w by (subst fade_in.simps) simp
  from Suc(3) f obtain l1 s1 where po: "poll e l s = Some (Continue l1 s1)"
    and r: "fade_in e k d ?l2 (delay_ms e d (ocr_write k (l k + 1) s1)) = Some (Continue l' s')"
    by (auto split: option.splits flow.splits)
  have mm: "n = 255 - unat (?l2 k)" using Suc(2) u by simp
  from Suc(1) [OF mm r] have "slot (delay_ms e d (ocr_write k (l k + 1) s1)) \<le> slot s'"
    and "l' = ?l2(k := 255)" by simp_all
  moreover have "slot s < slot s1" using po by (rule poll_Continue)
  ultimately show ?case by simp
qed

lemma fade_out_Continue:
  "fade_out e k d l s = Some (Continue l' s') \<Longrightarrow>
   slot s \<le> slot s' \<and> l' = l(k := 0) \<and> (0 < l k \<longrightarrow> slot s < slot s')"
proof (induction "unat (l k)" arbitrary: l s)
  case 0
  then have "unat (l k) = unat (0 :: u8)" by simp
  then have e: "l k = 0" by (simp only: word_unat_eq_iff)
  then have "fade_out e k d l s = Some (Continue l s)" by (subst fade_out.simps) simp
  with 0(2) have "l' = l" "s' = s" by simp_all
  moreover have "l(k := 0) = l" using e by auto
  ultimately show ?case using e by simp
next
  case (Suc n)
  from Suc(2) have lt: "0 < unat (l k)" by simp
  then have w: "0 < l k" by (simp add: word_less_nat_alt)
  have "1 \<le> l k" using lt by (simp add: word_le_nat_alt)
  then have "unat (l k - 1) = unat (l k) - unat (1 :: u8)" by (rule unat_sub)
  then have u: "unat (l k - 1) = unat (l k) - 1" by simp
  let ?l2 = "l(k := l k - 1)"
  have f: "fade_out e k d l s =
      (case poll e l s of
         Some (Continue l1 s1) \<Rightarrow> fade_out e k d ?l2 (delay_ms e d (ocr_write k (l k - 1) s1))
       | r \<Rightarrow> r)"
    using w by (subst fade_out.simps) simp
  from Suc(3) f obtain l1 s1 where po: "poll e l s = Some (Continue l1 s1)"
    and r: "fade_out e k d ?l2 (delay_ms e d (ocr_write k (l k - 1) s1)) = Some (Continue l' s')"
    by (auto split: option.splits flow.splits)
  have mm: "n = unat (?l2 k)" using Suc(2) u by simp
  from Suc(1) [OF mm r] have "slot (delay_ms e d (ocr_write k (l k - 1) s1)) \<le> slot s'"
    and "l' = ?l2(k := 0)" by simp_all
  moreover have "slot s < slot s1" using po by (rule poll_Continue)
  ultimately show ?case by simp
qed

lemma seq1_body_advances:
  assumes "seq1_body e l s = Some (Continue l' s')"
  shows "slot s < slot s'"
proof -
  from assms [unfolded seq1_body_def] obtain l1 s1 where
    a1: "fade_in e 1 1 l s = Some (Continue l1 s1)"
    and r1: "run [fade_in e 2 1, fade_in e 3 1, fade_in e 4 1,
          fade_out e 1 1, fade_out e 2 1, fade_out e 3 1, fade_out e 4 1] l1 s1 =
        Some (Continue l' s')" by (rule run_Cons_Continue)
  from r1 obtain l2 s2 where a2: "fade_in e 2 1 l1 s1 = Some (Continue l2 s2)"
    and r2: "run [fade_in e 3 1, fade_in e 4 1,
          fade_out e 1 1, fade_out e 2 1, fade_out e 3 1, fade_out e 4 1] l2 s2 =
        Some (Continue l' s')" by (rule run_Cons_Continue)
  from r2 obtain l3 s3 where a3: "fade_in e 3 1 l2 s2 = Some (Continue l3 s3)"
    and r3: "run [fade_in e 4 1,
          fade_out e 1 1, fade_out e 2 1, fade_out e 3 1, fade_out e 4 1] l3 s3 =
        Some (Continue l' s')" by (rule run_Cons_Continue)
  from r3 obtain l4 s4 where a4: "fade_in e 4 1 l3 s3 = Some (Continue l4 s4)"
    and r4: "run [fade_out e 1 1, fade_out e 2 1, fade_out e 3 1, fade_out e 4 1] l4 s4 =
        Some (Continue l' s')" by (rule run_Cons_Continue)
  from r4 obtain l5 s5 where a5: "fade_out e 1 1 l4 s4 = Some (Continue l5 s5)"
    and r5: "run [fade_out e 2 1, fade_out e 3 1, fade_out e 4 1] l5 s5 =
        Some (Continue l' s')" by (rule run_Cons_Continue)
  from r5 obtain l6 s6 where a6: "fade_out e 2 1 l5 s5 = Some (Continue l6 s6)"
    and r6: "run [fade_out e 3 1, fade_out e 4 1] l6 s6 = Some (Continue l' s')"
    by (rule run_Cons_Continue)
  from r6 obtain l7 s7 where a7: "fade_out e 3 1 l6 s6 = Some (Continue l7 s7)"
    and r7: "run [fade_out e 4 1] l7 s7 = Some (Continue l' s')"
    by (rule run_Cons_Continue)
  from r7 obtain l8 s8 where a8: "fade_out e 4 1 l7 s7 = Some (Continue l8 s8)"
    and r8: "run [] l8 s8 = Some (Continue l' s')"
    by (rule run_Cons_Continue)
  from r8 have e8: "s' = s8" by (simp add: run.simps)
  note i1 = fade_in_Continue [OF a1] and i2 = fade_in_Continue [OF a2]
    and i3 = fade_in_Continue [OF a3] and i4 = fade_in_Continue [OF a4]
    and o5 = fade_out_Continue [OF a5] and o6 = fade_out_Continue [OF a6]
    and o7 = fade_out_Continue [OF a7] and o8 = fade_out_Continue [OF a8]
  have "l4 1 = 255" using i1 i2 i3 i4 by simp
  then have "0 < l4 1" by simp
  then have "slot s4 < slot s5" using o5 by simp
  moreover have "slot s \<le> slot s4" using i1 i2 i3 i4 by simp
  moreover have "slot s5 \<le> slot s8" using o6 o7 o8 by simp
  ultimately show ?thesis using e8 by simp
qed

lemma alert_progress:
  assumes a: "alert e s0 M p c r ob 0"
    and g: "\<And>l s l' s'. c l s = Some (Continue l' s') \<Longrightarrow> slot s < slot s'"
  shows "alert e s0 M p c r ob 1"
proof (rule alertI)
  fix l s
  assume k: "keeps_time e s0 M s" and h: "slot s \<le> p + r"
  from alertD [OF a k h, of l]
  show "(\<exists>s'. c l s = Some (Returned 1 s') \<and> slot s' \<le> p + 3102) \<or>
     (\<exists>l' s'. c l s = Some (Continue l' s') \<and> keeps_time e s0 M s' \<and>
              slot s + 1 \<le> slot s' \<and> slot s' \<le> p + ob)"
  proof
    assume "\<exists>s'. c l s = Some (Returned 1 s') \<and> slot s' \<le> p + 3102"
    then show ?thesis by (rule disjI1)
  next
    assume "\<exists>l' s'. c l s = Some (Continue l' s') \<and> keeps_time e s0 M s' \<and>
              slot s + 0 \<le> slot s' \<and> slot s' \<le> p + ob"
    then obtain l' s' where c: "c l s = Some (Continue l' s')" and k': "keeps_time e s0 M s'"
      and b: "slot s' \<le> p + ob" by blast
    from g [OF c] have "slot s + 1 \<le> slot s'" by simp
    with c k' b have "c l s = Some (Continue l' s') \<and> keeps_time e s0 M s' \<and>
              slot s + 1 \<le> slot s' \<and> slot s' \<le> p + ob" by simp
    then show ?thesis by (intro disjI2 exI)
  qed
qed

lemma seq1_body_alert:
  assumes "tapped e p" and "ticking e" and "p + 7000 \<le> slot s0 + M"
  shows "alert e s0 M p (seq1_body e) 300 300 1"
  using seq1_body_alert0 [OF assms] seq1_body_advances by (rule alert_progress)

lemma seq_plain_detects:
  assumes b: "\<And>s0 M. p + 7000 \<le> slot s0 + M \<Longrightarrow> alert e s0 M p body r r 1"
    and t: "t < 0" and ok: "ticks_ok s" and sl: "slot s \<le> p"
    and room: "clock s + served e (slot s) (p - slot s + 7000) < 5 * 2 ^ 64"
    and init: "millis s1 = millis s" "timer_interrupt_ticks s1 = timer_interrupt_ticks s"
      "slot s1 = slot s"
  shows "\<exists>s'. seq_while body t start l s1 = Some (Val 1 s') \<and> slot s' \<le> p + 3102"
proof -
  let ?M = "p - slot s + 7000"
  have "keeps_time e s ?M s" using ok room by (rule keeps_time_start)
  then have k: "keeps_time e s ?M s1" using init by (rule keeps_time_frame)
  have "p + 7000 \<le> slot s + ?M" using sl by simp
  then have a: "alert e s ?M p body r r 1" by (rule b)
  have "slot s1 \<le> p + r" using sl init by simp
  with a t k show ?thesis by (rule seq_while_alert)
qed

lemma seq8_detects:
  assumes tp: "tapped e p" and tk: "ticking e" and t: "t < 0" and ok: "ticks_ok s"
    and sl: "slot s \<le> p"
    and room: "clock s + served e (slot s) (p - slot s + 7000) < 5 * 2 ^ 64"
  shows "\<exists>s'. seq8 e t s = Some (Val 1 s') \<and> slot s' \<le> p + 3102"
proof -
  let ?M = "p - slot s + 7000"
  let ?s0 = "set_all 0 s"
  have "keeps_time e s ?M s" using ok room by (rule keeps_time_start)
  then have k: "keeps_time e s ?M ?s0" by (rule keeps_time_frame) simp_all
  have m: "p + 7000 \<le> slot s + ?M" using sl by simp
  have h: "slot ?s0 \<le> p + 300" using sl by simp
  from alertD [OF seq8_intro_alert [OF tp tk m] k h, of "()"]
  show ?thesis
  proof
    assume "\<exists>s'. seq8_intro e () ?s0 = Some (Returned 1 s') \<and> slot s' \<le> p + 3102"
    then obtain s' where "seq8_intro e () ?s0 = Some (Returned 1 s')" "slot s' \<le> p + 3102" by blast
    then have "seq8 e t s = Some (Val 1 s') \<and> slot s' \<le> p + 3102" by (simp add: seq8_def Let_def)
    then show ?thesis by (intro exI)
  next
    assume "\<exists>l' s'. seq8_intro e () ?s0 = Some (Continue l' s') \<and> keeps_time e s ?M s' \<and>
              slot ?s0 + 0 \<le> slot s' \<and> slot s' \<le> p + 300"
    then obtain l1 s1 where i: "seq8_intro e () ?s0 = Some (Continue l1 s1)"
      and k1: "keeps_time e s ?M s1" and b: "slot s1 \<le> p + 300" by blast
    from seq_while_alert [OF seq8_body_alert [OF tp tk m] t k1 b, of "millis ?s0" l1]
    obtain s' where "seq_while (seq8_body e) t (millis ?s0) l1 s1 = Some (Val 1 s')" "slot s' \<le> p + 3102" by blast
    then have "seq8 e t s = Some (Val 1 s') \<and> slot s' \<le> p + 3102" using i by (simp add: seq8_def Let_def)
    then show ?thesis by (intro exI)
  qed
qed

lemma seq_detects:
  assumes tp: "tapped e p" and tk: "ticking e" and t: "t < 0" and ok: "ticks_ok s"
    and sl: "slot s \<le> p"
    and room: "clock s + served e (slot s) (p - slot s + 7000) < 5 * 2 ^ 64"
  shows "\<exists>s'. seq n e t s = Some (Val 1 s') \<and> slot s' \<le> p + 3102"
proof -
  note r = seq_plain_detects [OF _ t ok sl room]
  have 1: "\<exists>s'. seq1 e t s = Some (Val 1 s') \<and> slot s' \<le> p + 3102" unfolding seq1_def Let_def
    by (rule r [OF seq1_body_alert [OF tp tk]]) simp_all
  have 2: "\<exists>s'. seq2 e t s = Some (Val 1 s') \<and> slot s' \<le> p + 3102" unfolding seq2_def Let_def
    by (rule r [OF seq2_body_alert [OF tp tk]]) simp_all
  have 3: "\<exists>s'. seq3 e t s = Some (Val 1 s') \<and> slot s' \<le> p + 3102" unfolding seq3_def Let_def
    by (rule r [OF seq3_body_alert [OF tp tk]]) simp_all
  have 4: "\<exists>s'. seq4 e t s = Some (Val 1 s') \<and> slot s' \<le> p + 3102" unfolding seq4_def Let_def
    by (rule r [OF seq4_body_alert [OF tp tk]]) simp_all
  have 5: "\<exists>s'. seq5 e t s = Some (Val 1 s') \<and> slot s' \<le> p + 3102" unfolding seq5_def Let_def
    by (rule r [OF seq5_body_alert [OF tp tk]]) simp_all
  have 6: "\<exists>s'. seq6 e t s = Some (Val 1 s') \<and> slot s' \<le> p + 3102" unfolding seq6_def Let_def
    by (rule r [OF seq6_body_alert [OF tp tk]]) simp_all
  have 7: "\<exists>s'. seq7 e t s = Some (Val 1 s') \<and> slot s' \<le> p + 3102" unfolding seq7_def Let_def
    by (rule r [OF seq7_body_alert [OF tp tk]]) simp_all
  have 8: "\<exists>s'. seq8 e t s = Some (Val 1 s') \<and> slot s' \<le> p + 3102"
    using tp tk t ok sl room by (rule seq8_detects)
  have 9: "\<exists>s'. seq9 e t s = Some (Val 1 s') \<and> slot s' \<le> p + 3102" unfolding seq9_def Let_def
    by (rule r [OF seq9_body_alert [OF tp tk]]) simp_all
  have 10: "\<exists>s'. seq10 e t s = Some (Val 1 s') \<and> slot s' \<le> p + 3102" unfolding seq10_def Let_def
    by (rule r [OF seq10_body_alert [OF tp tk]]) simp_all
  have 11: "\<exists>s'. seq11 e t s = Some (Val 1 s') \<and> slot s' \<le> p + 3102" unfolding seq11_def Let_def
    by (rule r [OF seq11_body_alert [OF tp tk]]) simp_all
  have 12: "\<exists>s'. seq12 e t s = Some (Val 1 s') \<and> slot s' \<le> p + 3102" unfolding seq12_def Let_def
    by (rule r [OF seq12_body_alert [OF tp tk]]) simp_all
  show ?thesis using 1 2 3 4 5 6 7 8 9 10 11 12 by (simp add: seq_def)
qed

subsubsection \<open>Every way out goes through the input monitor\<close>

lemma reports_local:
  assumes "\<And>l s. \<exists>l' s'. c l s = Some (Continue l' s') \<and> trace s' = trace s"
  shows "reports e c"
  unfolding reports_def
proof (intro allI)
  fix l s
  from assms [of l s] obtain l' s' where c: "c l s = Some (Continue l' s')"
    and t: "trace s' = trace s" by blast
  show "flow_reports e s (c l s)" unfolding c
    by (rule flow_ContinueI [of _ "[]"]) (simp_all add: t)
qed

lemma reports_writes:
  "reports e (wr (set_all v))" "reports e (wr (ocr_write k v))"
  "reports e (wr inc_all)" "reports e (wr dec_all)" "reports e (wr inc2_all)"
  "reports e (wr (sample_mic e'))"
  "reports e dec_leds" "reports e show_walk" "reports e (seq10_update i)"
  "reports e (seq11_update i)" "reports e (choose_led e' n d)" "reports e show_level"
  by (rule reports_local,
      simp add: wr_def inc_all_def dec_all_def inc2_all_def sample_mic_time dec_leds_def
        show_walk_def seq10_update_def seq11_update_def choose_led_def rand_def
        show_level_def Let_def)+

lemma reports_fade_in: "reports e (fade_in e k d)"
  unfolding reports_def
proof (intro allI)
  fix l s
  show "flow_reports e s (fade_in e k d l s)"
  proof (induction "255 - unat (l k)" arbitrary: l s)
    case 0
    have "unat (l k) < 2 ^ LENGTH(8)" by (rule unsigned_less)
    with 0 have "unat (l k) = unat (255 :: u8)" by simp
    then have "l k = 255" by (simp only: word_unat_eq_iff)
    then have f: "fade_in e k d l s = Some (Continue l s)" by (subst fade_in.simps) simp
    show ?case unfolding f by (rule flow_ContinueI [of _ "[]"]) simp_all
  next
    case (Suc n)
    from Suc(2) have lt: "unat (l k) < 255" by simp
    then have w: "l k < 255" by (simp add: word_less_nat_alt)
    have u: "unat (l k + 1) = unat (l k) + 1" using lt by (simp add: unat_word_ariths)
    let ?l2 = "l(k := l k + 1)"
    have f: "fade_in e k d l s =
        (case poll e l s of
           Some (Continue l1 s1) \<Rightarrow> fade_in e k d ?l2 (delay_ms e d (ocr_write k (l k + 1) s1))
         | r \<Rightarrow> r)"
      using w by (subst fade_in.simps) simp
    have po: "flow_reports e s (poll e l s)" using reports_poll by (rule reportsD)
    show ?case
    proof (cases "poll e l s")
      case None
      then show ?thesis using f by (simp add: flow_reports_simps)
    next
      case (Some x)
      show ?thesis
      proof (cases x)
        case (Restarted s')
        then show ?thesis using f po Some by simp
      next
        case (Returned v s')
        then show ?thesis using f po Some by simp
      next
        case (Continue l1 s1)
        let ?s2 = "delay_ms e d (ocr_write k (l k + 1) s1)"
        from po Some Continue obtain ev where t1: "trace s1 = ev @ trace s"
          and n1: "Checked 1 \<notin> set ev" by (auto simp: flow_reports_simps)
        have t2: "trace ?s2 =
            (Shown (OCR0A (ocr_write k (l k + 1) s1)) (OCR0B (ocr_write k (l k + 1) s1))
               (OCR1B (ocr_write k (l k + 1) s1)) (OCR1A (ocr_write k (l k + 1) s1)) d # ev) @
            trace s"
          using t1 by simp
        have mm: "n = 255 - unat (?l2 k)" using Suc(2) u by simp
        have ih: "flow_reports e ?s2 (fade_in e k d ?l2 ?s2)" using mm by (rule Suc(1))
        have "flow_reports e s (fade_in e k d ?l2 ?s2)"
          by (rule flow_reports_after [OF t2 _ ih]) (simp add: n1)
        then show ?thesis using f Some Continue by simp
      qed
    qed
  qed
qed

lemma reports_fade_out: "reports e (fade_out e k d)"
  unfolding reports_def
proof (intro allI)
  fix l s
  show "flow_reports e s (fade_out e k d l s)"
  proof (induction "unat (l k)" arbitrary: l s)
    case 0
    then have "unat (l k) = unat (0 :: u8)" by simp
    then have "l k = 0" by (simp only: word_unat_eq_iff)
    then have f: "fade_out e k d l s = Some (Continue l s)" by (subst fade_out.simps) simp
    show ?case unfolding f by (rule flow_ContinueI [of _ "[]"]) simp_all
  next
    case (Suc n)
    from Suc(2) have lt: "0 < unat (l k)" by simp
    then have w: "0 < l k" by (simp add: word_less_nat_alt)
    have "1 \<le> l k" using lt by (simp add: word_le_nat_alt)
    then have "unat (l k - 1) = unat (l k) - unat (1 :: u8)" by (rule unat_sub)
    then have u: "unat (l k - 1) = unat (l k) - 1" by simp
    let ?l2 = "l(k := l k - 1)"
    have f: "fade_out e k d l s =
        (case poll e l s of
           Some (Continue l1 s1) \<Rightarrow> fade_out e k d ?l2 (delay_ms e d (ocr_write k (l k - 1) s1))
         | r \<Rightarrow> r)"
      using w by (subst fade_out.simps) simp
    have po: "flow_reports e s (poll e l s)" using reports_poll by (rule reportsD)
    show ?case
    proof (cases "poll e l s")
      case None
      then show ?thesis using f by (simp add: flow_reports_simps)
    next
      case (Some x)
      show ?thesis
      proof (cases x)
        case (Restarted s')
        then show ?thesis using f po Some by simp
      next
        case (Returned v s')
        then show ?thesis using f po Some by simp
      next
        case (Continue l1 s1)
        let ?s2 = "delay_ms e d (ocr_write k (l k - 1) s1)"
        from po Some Continue obtain ev where t1: "trace s1 = ev @ trace s"
          and n1: "Checked 1 \<notin> set ev" by (auto simp: flow_reports_simps)
        have t2: "trace ?s2 =
            (Shown (OCR0A (ocr_write k (l k - 1) s1)) (OCR0B (ocr_write k (l k - 1) s1))
               (OCR1B (ocr_write k (l k - 1) s1)) (OCR1A (ocr_write k (l k - 1) s1)) d # ev) @
            trace s"
          using t1 by simp
        have mm: "n = unat (?l2 k)" using Suc(2) u by simp
        have ih: "flow_reports e ?s2 (fade_out e k d ?l2 ?s2)" using mm by (rule Suc(1))
        have "flow_reports e s (fade_out e k d ?l2 ?s2)"
          by (rule flow_reports_after [OF t2 _ ih]) (simp add: n1)
        then show ?thesis using f Some Continue by simp
      qed
    qed
  qed
qed

lemmas reports_intros =
  reports_run_Cons reports_run_Nil reports_times reports_for_each reports_poll
  reports_pause reports_wait_poll reports_writes reports_fade_in reports_fade_out

lemma bodies_report:
  "reports e (seq1_body e)" "reports e (seq2_body e)" "reports e (seq3_body e)"
  "reports e (seq4_body e)" "reports e (seq5_body e)" "reports e (seq6_body e)"
  "reports e (seq7_body e)" "reports e (seq8_intro e)" "reports e (seq8_body e)"
  "reports e (seq9_body e)" "reports e (seq10_body e)" "reports e (seq11_body e)"
  "reports e (seq12_body e)"
  unfolding seq1_body_def seq2_body_def seq3_body_def seq4_body_def seq5_body_def
    seq6_body_def seq7_body_def seq8_intro_def seq8_body_def seq9_body_def seq10_body_def
    seq11_body_def seq12_body_def flash_def append.simps rise_def hand_off_def fall_def
  by (rule reports_intros)+

lemma ends_on_press_flow:
  "ends_on_press e s None"
  "flow_reports e s (Some (Restarted s') :: unit flow option) \<Longrightarrow>
     ends_on_press e s (Some (Reset s'))"
  "flow_reports e s (Some (Returned v s') :: unit flow option) \<Longrightarrow>
     ends_on_press e s (Some (Val v s'))"
  by (simp_all add: ends_on_press_def flow_reports_simps)

lemma ends_on_press_after:
  assumes t: "trace s1 = ev @ trace s" and n: "Checked 1 \<notin> set ev"
    and r: "ends_on_press e s1 y"
  shows "ends_on_press e s y"
proof (cases y)
  case None
  then show ?thesis by (simp add: ends_on_press_def)
next
  case (Some x)
  show ?thesis
  proof (cases x)
    case (Reset s')
    with r Some have "flow_reports e s1 (Some (Restarted s') :: unit flow option)"
      by (simp add: ends_on_press_def flow_reports_simps)
    with t n have "flow_reports e s (Some (Restarted s') :: unit flow option)"
      by (rule flow_reports_after)
    then show ?thesis unfolding Some Reset by (rule ends_on_press_flow)
  next
    case (Val v s')
    with r Some have "flow_reports e s1 (Some (Returned v s') :: unit flow option)"
      by (simp add: ends_on_press_def flow_reports_simps)
    with t n have "flow_reports e s (Some (Returned v s') :: unit flow option)"
      by (rule flow_reports_after)
    then show ?thesis unfolding Some Val by (rule ends_on_press_flow)
  qed
qed

lemma ends_on_press_still:
  "trace s1 = trace s \<Longrightarrow> ends_on_press e s1 y \<Longrightarrow> ends_on_press e s y"
  using ends_on_press_after [of s1 "[]" s e y] by simp

lemma seq_while_reports:
  assumes "seq_while body timeout start l s = Some y" and "reports e body" and "timeout < 0"
  shows "ends_on_press e s (Some y)"
  using assms
proof (induct rule: seq_while.raw_induct [rotated 1, consumes 1])
  case (1 loop body timeout start l s y)
  note rb = \<open>reports e body\<close> and t = \<open>timeout < 0\<close>
  have fr: "flow_reports e s (body l s)" using rb by (rule reportsD)
  show ?case
  proof (cases "body l s")
    case None
    with 1(2) t show ?thesis by simp
  next
    case (Some x)
    show ?thesis
    proof (cases x)
      case (Restarted s')
      with 1(2) t Some have y: "y = Reset s'" by simp
      from fr Some Restarted have "flow_reports e s (Some (Restarted s') :: unit flow option)"
        by (simp add: flow_reports_simps)
      then show ?thesis unfolding y by (rule ends_on_press_flow)
    next
      case (Returned v s')
      with 1(2) t Some have y: "y = Val v s'" by simp
      from fr Some Returned have "flow_reports e s (Some (Returned v s') :: unit flow option)"
        by (simp add: flow_reports_simps)
      then show ?thesis unfolding y by (rule ends_on_press_flow)
    next
      case (Continue l1 s1)
      with 1(2) t Some have call: "loop body timeout start l1 s1 = Some y" by simp
      from fr Some Continue obtain ev where "trace s1 = ev @ trace s" "Checked 1 \<notin> set ev"
        by (auto simp: flow_reports_simps)
      moreover have "ends_on_press e s1 (Some y)" using call rb t by (rule 1(1))
      ultimately show ?thesis by (rule ends_on_press_after)
    qed
  qed
qed

lemma seq_plain_ends:
  assumes "reports e body" and "timeout < 0" and "trace s1 = trace s"
  shows "ends_on_press e s (seq_while body timeout start l s1)"
proof (cases "seq_while body timeout start l s1")
  case None
  then show ?thesis by (simp add: ends_on_press_def)
next
  case (Some y)
  from seq_while_reports [OF Some assms(1,2)] have "ends_on_press e s1 (Some y)" .
  with assms(3) show ?thesis unfolding Some by (rule ends_on_press_still)
qed

lemma seq8_ends:
  assumes t: "timeout < 0"
  shows "ends_on_press e s (seq8 e timeout s)"
proof -
  let ?s0 = "set_all 0 s"
  have fr: "flow_reports e ?s0 (seq8_intro e () ?s0)"
    using bodies_report(8) by (rule reportsD)
  have "ends_on_press e ?s0 (seq8 e timeout s)"
  proof (cases "seq8_intro e () ?s0")
    case None
    then show ?thesis by (simp add: seq8_def Let_def ends_on_press_def)
  next
    case (Some x)
    show ?thesis
    proof (cases x)
      case (Restarted s')
      with fr Some have "ends_on_press e ?s0 (Some (Reset s'))"
        by (intro ends_on_press_flow) simp
      then show ?thesis using Some Restarted by (simp add: seq8_def Let_def)
    next
      case (Returned v s')
      with fr Some have "ends_on_press e ?s0 (Some (Val v s'))"
        by (intro ends_on_press_flow) simp
      then show ?thesis using Some Returned by (simp add: seq8_def Let_def)
    next
      case (Continue l1 s1)
      with fr Some obtain ev where "trace s1 = ev @ trace ?s0" "Checked 1 \<notin> set ev"
        by (auto simp: flow_reports_simps)
      moreover have "ends_on_press e s1 (seq_while (seq8_body e) timeout (millis ?s0) l1 s1)"
        using bodies_report(9) t by (rule seq_plain_ends) simp
      ultimately have "ends_on_press e ?s0 (seq_while (seq8_body e) timeout (millis ?s0) l1 s1)"
        by (rule ends_on_press_after)
      then show ?thesis using Some Continue by (simp add: seq8_def Let_def)
    qed
  qed
  then show ?thesis by (rule ends_on_press_still [rotated 1]) simp
qed

lemma seq_ends:
  assumes t: "timeout < 0"
  shows "ends_on_press e s (seq n e timeout s)"
proof -
  note r = seq_plain_ends [OF _ t]
  have "ends_on_press e s (seq1 e timeout s)" "ends_on_press e s (seq2 e timeout s)"
    "ends_on_press e s (seq3 e timeout s)" "ends_on_press e s (seq4 e timeout s)"
    "ends_on_press e s (seq5 e timeout s)" "ends_on_press e s (seq6 e timeout s)"
    "ends_on_press e s (seq7 e timeout s)" "ends_on_press e s (seq9 e timeout s)"
    "ends_on_press e s (seq10 e timeout s)" "ends_on_press e s (seq11 e timeout s)"
    "ends_on_press e s (seq12 e timeout s)"
    unfolding seq1_def seq2_def seq3_def seq4_def seq5_def seq6_def seq7_def seq9_def
      seq10_def seq11_def seq12_def Let_def
    by (rule r, rule bodies_report, simp)+
  then show ?thesis using seq8_ends [OF t] by (simp add: seq_def)
qed

lemma wait_loop_released:
  assumes "delay_millis_check_button_loop e deadline bp s = Some y" and "released e"
  shows "case y of Reset s' \<Rightarrow> False | Val r s' \<Rightarrow> r = bp"
  using assms
proof (induct rule: delay_millis_check_button_loop.raw_induct [rotated 1, consumes 1])
  case (1 loop e deadline bp s y)
  note rel = \<open>released e\<close>
  show ?case
  proof (cases "millis s < deadline")
    case False
    with 1(2) have "y = Val bp s" by simp
    then show ?thesis by simp
  next
    case True
    have "\<not> button e (slot s) < 1000" using rel by (simp add: released_def)
    from released [OF this] True 1(2)
    have "loop e deadline bp ((slot_pass e s)\<lparr>trace := Checked 0 # trace s\<rparr>) = Some y"
      by simp
    from 1(1) [OF this rel] show ?thesis .
  qed
qed

lemma released_never_ends:
  assumes rel: "released e" and r: "ends_on_press e s y"
  shows "y = None"
proof -
  have c: "check_button_input e s1 \<noteq> Reset s'" for s1 s'
  proof -
    have "\<not> button e (slot s1) < 1000" using rel by (simp add: released_def)
    from released [OF this] show ?thesis by simp
  qed
  have p: "poll e () s1 \<noteq> Some (Returned 1 s')" for s1 s'
  proof -
    have "\<not> button e (slot s1) < 1000" using rel by (simp add: released_def)
    from released [OF this] show ?thesis by (simp add: poll_def)
  qed
  have w: "wait_poll e d () s1 \<noteq> Some (Returned 1 s')" for d s1 s'
  proof
    assume a: "wait_poll e d () s1 = Some (Returned 1 s')"
    then obtain rv where e: "delay_millis_check_button e d s1 = Some (Val rv s')"
      and rv: "rv \<noteq> 0"
      by (auto simp: wait_poll_def split: option.splits res.splits if_splits)
    from wait_loop_released [OF e [unfolded delay_millis_check_button_def] rel]
    have "rv = 0" by simp
    with rv show False by simp
  qed
  have "\<not> step_reports e s1 s'" for s1 s' using p w by (simp add: step_reports_def)
  then show ?thesis using r c
    by (auto simp: ends_on_press_def split: option.splits res.splits)
qed

lemma held_restarts: "\<exists>s'. seq 1 held (- 1) hw0 = Some (Reset s')"
proof -
  let ?s0 = "set_all 0 hw0"
  have "\<exists>s'. check_button_input held ?s0 = Reset s'"
    using long_press [of held ?s0] by (auto simp: button_def held_def)
  then obtain s' where c: "check_button_input held ?s0 = Reset s'" by blast
  then have "poll held ((\<lambda>_. 0) :: nat \<Rightarrow> u8) ?s0 = Some (Restarted s')" by (simp add: poll_def)
  then have "fade_in held 1 1 (\<lambda>_. 0) ?s0 = Some (Restarted s')"
    by (subst fade_in.simps) simp
  then have "seq1_body held (\<lambda>_. 0) ?s0 = Some (Restarted s')"
    by (simp add: seq1_body_def run.simps)
  then have "seq_while (seq1_body held) (- 1) (millis ?s0) (\<lambda>_. 0) ?s0 = Some (Reset s')"
    by (subst seq_while.simps) simp
  then have "seq 1 held (- 1) hw0 = Some (Reset s')" by (simp add: seq_def seq1_def Let_def)
  then show ?thesis by (intro exI)
qed

text \<open>
  C2, as stated, fails when the button stays down: the first check of sequence 1,
  started with timeout \<open>-1\<close>, finds the button pressed at all three samples and restarts
  the device. The sequence neither runs on nor returns 1.
\<close>

theorem held_button_ends_sequence:
  "button held (slot hw0) < 1000 \<and>
   map_option restarted (seq 1 held (- 1) hw0) = Some True \<and>
   map_option returned (seq 1 held (- 1) hw0) = Some None"
  using held_restarts by (auto simp: button_def held_def hw0_def)

text \<open>
  C2, amended. A sequence started with a negative timeout never returns 0. It ends only
  through the input monitor: it returns 1, from the input-watching statement (a direct
  check, or a wait, which runs to its end) begun when no call of the input monitor had
  yet returned 1, or the input monitor restarts the device on a long press. With the
  button released throughout, the sequence runs forever. And a press is not missed:
  when the button goes down at slot \<open>p\<close> of the run for 301 slots, every slot sees a
  timer-0 interrupt and the millisecond counter does not wrap, the sequence returns 1,
  at most 3102 slots after \<open>p\<close> (300 until a check samples the button, 302 for the
  check, 2500 for the longest wait).
\<close>

theorem unbounded_sequence_ends_on_press:
  assumes "t < 0"
  shows "ends_on_press e s (seq n e t s) \<and>
         (released e \<longrightarrow> seq n e t s = None) \<and>
         (tapped e p \<and> ticking e \<and> ticks_ok s \<and> slot s \<le> p \<and>
          clock s + served e (slot s) (p - slot s + 7000) < 5 * 2 ^ 64 \<longrightarrow>
            (\<exists>s'. seq n e t s = Some (Val 1 s') \<and> slot s' \<le> p + 3102))"
proof (intro conjI impI)
  show e: "ends_on_press e s (seq n e t s)" using assms by (rule seq_ends)
  show "seq n e t s = None" if "released e" using that e by (rule released_never_ends)
  assume a: "tapped e p \<and> ticking e \<and> ticks_ok s \<and> slot s \<le> p \<and>
          clock s + served e (slot s) (p - slot s + 7000) < 5 * 2 ^ 64"
  from a have tp: "tapped e p" by (elim conjE)
  from a have tk: "ticking e" by (elim conjE)
  from a have ok: "ticks_ok s" by (elim conjE)
  from a have sl: "slot s \<le> p" by (elim conjE)
  from a have room: "clock s + served e (slot s) (p - slot s + 7000) < 5 * 2 ^ 64"
    by (elim conjE)
  from tp tk assms ok sl room
  show "\<exists>s'. seq n e t s = Some (Val 1 s') \<and> slot s' \<le> p + 3102"
    by (rule seq_detects)
qed

lemma tap_facts: "tapped tap 1000" "ticking tap" "served tap i n = 4 * n"
proof -
  show "tapped tap 1000" by (simp add: tapped_def button_def tap_def)
  show "ticking tap" by (simp add: ticking_def tap_def)
  show "served tap i n = 4 * n" by (rule served_const) (simp add: tap_def)
qed

theorem unbounded_sequence_ends_on_press_witness:
  "seq 3 quiet (- 1) hw0 = None \<and>
   (\<exists>s'. seq 3 tap (- 1) hw0 = Some (Val 1 s') \<and> slot s' \<le> 4102) \<and>
   ends_on_press held hw0 (seq 1 held (- 1) hw0)"
proof -
  have "seq 3 quiet (- 1) hw0 = None"
    using unbounded_sequence_ends_on_press [of "- 1" quiet hw0 3] released_quiet by simp
  moreover have "\<exists>s'. seq 3 tap (- 1) hw0 = Some (Val 1 s') \<and> slot s' \<le> 4102"
    using unbounded_sequence_ends_on_press [of "- 1" tap hw0 3 1000]
    by (simp add: tap_facts ticks_ok_def clock_def hw0_def)
  moreover have "ends_on_press held hw0 (seq 1 held (- 1) hw0)"
    using unbounded_sequence_ends_on_press [of "- 1" held hw0 1] by simp
  ultimately show ?thesis by simp
qed

end
